theory Spec2Isabelle
  imports Complex_Main "HOL-Library.Word" "HOL-Library.Signed_Division" "HOL-Library.Log_Nat"
begin

section \<open>The non-transitive dice game: data and platform model\<close>

text \<open>
  The repository holds two variants of one console game. The commit-reveal variant
  (\<^verbatim>\<open>src/unnamed/part_000\<close>) decides the turn order and both die rolls with a
  \<^verbatim>\<open>FairRandom\<close> session (HMAC commitment, user's number, reveal); the plain
  variant (\<^verbatim>\<open>src/task3.js\<close>) has no \<^verbatim>\<open>FairRandom\<close> class and draws with
  \<^verbatim>\<open>crypto.randomInt\<close>. The classes \<^verbatim>\<open>Dice\<close>, \<^verbatim>\<open>Probability\<close> and the methods
  \<^verbatim>\<open>selectDice\<close>, \<^verbatim>\<open>printProbabilityTable\<close> are the same text in both files.

  The JavaScript numbers of this program are integers (indices, face counts, 32-bit
  draws, the faces the parser read), so they are modelled as \<open>int\<close>; the one place
  where a fraction can arise (\<^verbatim>\<open>Number(ans) - 1\<close> in \<^verbatim>\<open>selectDice\<close>) uses \<open>rat\<close>.
  \<^verbatim>\<open>NaN\<close> and \<^verbatim>\<open>undefined\<close> are \<open>None\<close>. A line of digits whose value is
  \<open>2^53\<close> or more is read exactly here and rounded by \<^verbatim>\<open>Number\<close>; either value is
  above every range of a session, which the sampler keeps at or below \<open>2^32\<close>.
  The one division of the program, \<^verbatim>\<open>wins / total\<close>, is given twice: as the exact
  quotient (\<open>winProb\<close>) and as the double that the program returns
  (\<open>winProb_double\<close>).
\<close>

type_synonym byte = "8 word"

datatype error =
    RangeError_DivisionByZero  \<comment> \<open>BigInt \<^verbatim>\<open>%\<close> with a zero divisor\<close>
  | ERR_OUT_OF_RANGE           \<comment> \<open>\<^verbatim>\<open>buf.writeUInt32BE\<close>, \<^verbatim>\<open>crypto.randomInt\<close>\<close>
  | ERR_USE_AFTER_CLOSE        \<comment> \<open>\<^verbatim>\<open>rl.question\<close> on a closed interface\<close>
  | TypeError                  \<comment> \<open>property read on \<^verbatim>\<open>undefined\<close>\<close>
  | DiceMustHaveFaces          \<comment> \<open>\<^verbatim>\<open>new Error("Dice must have faces")\<close>\<close>

record dice =
  faces :: "int list"

datatype verdict = YouWin | ComputerWins | Tie

datatype event =
    Log_HMAC string
  | Log_Key "byte list"
  | Log_ComputerNumber int
  | Ask_Number int
  | Log_InvalidInput
  | Log_SelectMenu "int option"
  | Ask_Choice
  | Log_InvalidChoice
  | Log_ProbabilityTable "rat option option list list"
  | Log_Welcome
  | Log_Dice "dice list"
  | Log_Deciding
  | Log_YourNumber int
  | Log_ComputersNumber int
  | Log_Result "int option"
  | Log_SelectsFirst bool
  | Log_ComputerSelects "int option"
  | Log_YourDice rat
  | Log_ComputerDice "int option"
  | Log_YourTurn
  | Log_YouRolled "int option"
  | Log_ComputersTurn
  | Log_ComputerRolled "int option"
  | Log_Verdict verdict

text \<open>
  The world outside the program: the lines still to come on standard input, the
  byte stream behind \<^verbatim>\<open>crypto.randomBytes\<close> with the position reached, the
  values behind \<^verbatim>\<open>Math.random\<close> and \<^verbatim>\<open>crypto.randomInt\<close> with their position,
  and what has been written to the console so far.
\<close>

record world =
  stdin :: "string list"
  entropy :: "nat \<Rightarrow> byte"
  epos :: nat
  chance :: "nat \<Rightarrow> nat"
  cpos :: nat
  out :: "event list"

text \<open>
  How a call ends: it returns, it throws, the process exits
  (\<^verbatim>\<open>process.exit\<close>), or it waits for a line of input that never comes.
  A call that loops forever has no outcome (\<open>None\<close>).
\<close>

datatype 'a outcome =
    Return 'a world
  | Throw error world
  | Exit int world
  | Blocked world

definition bind :: "'a outcome option \<Rightarrow> ('a \<Rightarrow> world \<Rightarrow> 'b outcome option) \<Rightarrow> 'b outcome option" where
  "bind m f =
     (case m of
        None \<Rightarrow> None
      | Some (Return a w) \<Rightarrow> f a w
      | Some (Throw e w) \<Rightarrow> Some (Throw e w)
      | Some (Exit c w) \<Rightarrow> Some (Exit c w)
      | Some (Blocked w) \<Rightarrow> Some (Blocked w))"

definition emit :: "event \<Rightarrow> world \<Rightarrow> world" where
  "emit e w = w\<lparr>out := out w @ [e]\<rparr>"

definition randomBytes :: "nat \<Rightarrow> world \<Rightarrow> byte list \<times> world" where
  "randomBytes n w = (map (entropy w) [epos w ..< epos w + n], w\<lparr>epos := epos w + n\<rparr>)"

text \<open>
  \<^verbatim>\<open>BigInt("0x" + buf.toString("hex"))\<close>: the bytes read as one unsigned
  big-endian integer.
\<close>

definition bigIntOfHex :: "byte list \<Rightarrow> int" where
  "bigIntOfHex bs = foldl (\<lambda>acc b. acc * 256 + uint b) 0 bs"

section \<open>FairRandom\<close>

text \<open>
  \<^verbatim>\<open>uniformRandom()\<close> reads \<^verbatim>\<open>this.range\<close> only, which is the first argument here.
  BigInt \<^verbatim>\<open>%\<close> truncates (the sign of the dividend: \<open>smod\<close>) and throws a
  RangeError on a zero divisor; the draw is made before the comparison evaluates
  its right-hand side.
\<close>

partial_function (option) uniformRandom :: "int \<Rightarrow> world \<Rightarrow> int outcome option" where
  "uniformRandom range' w =
     (let max' = range';
          bytesNeeded = 4;
          drawn = randomBytes bytesNeeded w;
          rnd = bigIntOfHex (fst drawn);
          w1 = snd drawn
      in if max' = 0 then Some (Throw RangeError_DivisionByZero w1)
         else if rnd < 2 ^ (bytesNeeded * 8) - ((2 ^ (bytesNeeded * 8)) smod max')
              then Some (Return (rnd smod max') w1)
              else uniformRandom range' w1)"

declare uniformRandom.simps [code]

text \<open>
  \<^verbatim>\<open>buf.writeUInt32BE(num)\<close> on a fresh 4-byte buffer: the value must lie in
  \<open>[0, 2^32 - 1]\<close>, else ERR_OUT_OF_RANGE.
\<close>

definition writeUInt32BE :: "int \<Rightarrow> error + byte list" where
  "writeUInt32BE num =
     (if num < 0 \<or> 4294967295 < num then Inl ERR_OUT_OF_RANGE
      else Inr [word_of_int (num div 16777216), word_of_int (num div 65536),
                word_of_int (num div 256), word_of_int num])"

text \<open>
  \<^verbatim>\<open>crypto.createHmac("sha3-256", key).update(buf).digest("hex")\<close> is the
  platform's; it is the parameter \<open>H\<close> (key, message, hex digest).
  \<^verbatim>\<open>calcHMAC(num)\<close> reads \<^verbatim>\<open>this.key\<close> only.
\<close>

type_synonym hmac_fn = "byte list \<Rightarrow> byte list \<Rightarrow> string"

definition calcHMAC :: "hmac_fn \<Rightarrow> byte list \<Rightarrow> int \<Rightarrow> error + string" where
  "calcHMAC H key' num =
     (case writeUInt32BE num of
        Inl e \<Rightarrow> Inl e
      | Inr buf \<Rightarrow> Inr (H key' buf))"

record FairRandom =
  range' :: int
  key :: "byte list"
  number :: int
  hmac :: string

definition FairRandom_new :: "hmac_fn \<Rightarrow> int \<Rightarrow> world \<Rightarrow> FairRandom outcome option" where
  "FairRandom_new H r w =
     (let keyed = randomBytes 32 w
      in bind (uniformRandom r (snd keyed)) (\<lambda>n w2.
           case calcHMAC H (fst keyed) n of
             Inl e \<Rightarrow> Some (Throw e w2)
           | Inr h \<Rightarrow> Some (Return \<lparr>range' = r, key = fst keyed, number = n, hmac = h\<rparr> w2)))"

definition showHMAC :: "FairRandom \<Rightarrow> world \<Rightarrow> world" where
  "showHMAC this w = emit (Log_HMAC (hmac this)) w"

definition reveal :: "FairRandom \<Rightarrow> world \<Rightarrow> world" where
  "reveal this w = emit (Log_ComputerNumber (number this)) (emit (Log_Key (key this)) w)"

text \<open>\<^verbatim>\<open>/^\d+$/.test(answer)\<close> and \<^verbatim>\<open>Number(answer)\<close> on such a string.\<close>

definition isDigit :: "char \<Rightarrow> bool" where
  "isDigit c = (48 \<le> (of_char c :: nat) \<and> (of_char c :: nat) \<le> 57)"

definition testDigits :: "string \<Rightarrow> bool" where
  "testDigits s = (s \<noteq> [] \<and> list_all isDigit s)"

definition numberOfDigits :: "string \<Rightarrow> int" where
  "numberOfDigits s = foldl (\<lambda>acc c. acc * 10 + (int (of_char c) - 48)) 0 s"

text \<open>
  \<^verbatim>\<open>getUserNumber\<close>: \<^verbatim>\<open>FairRandom.getUserNumber()\<close> with \<^verbatim>\<open>this.range\<close> in the
  commit-reveal variant, \<^verbatim>\<open>Game.getUserNumber(max)\<close> in the plain one; the two
  bodies differ in the wording of the prompt only. Each iteration asks, reads
  one line, and either leaves the loop or prints "Invalid input, try again.".
\<close>

function getUserNumber :: "int \<Rightarrow> world \<Rightarrow> int outcome" where
  "getUserNumber max' w =
     (case stdin w of
        [] \<Rightarrow> Blocked (emit (Ask_Number max') w)
      | answer # rest \<Rightarrow>
          (let w1 = (emit (Ask_Number max') w)\<lparr>stdin := rest\<rparr>
           in if testDigits answer \<and> 0 \<le> numberOfDigits answer \<and> numberOfDigits answer < max'
              then Return (numberOfDigits answer) w1
              else getUserNumber max' (emit Log_InvalidInput w1)))"
  by pat_completeness auto
termination
  by (relation "measure (\<lambda>(m, w). length (stdin w))") (auto simp: emit_def)

declare getUserNumber.simps [simp del]

text \<open>JavaScript \<^verbatim>\<open>%\<close> on integer-valued numbers: truncating, \<^verbatim>\<open>NaN\<close> for a zero divisor.\<close>

definition js_rem :: "int \<Rightarrow> int \<Rightarrow> int option" where
  "js_rem a b = (if b = 0 then None else Some (a smod b))"

definition getResult :: "FairRandom \<Rightarrow> world \<Rightarrow> int option outcome" where
  "getResult this w =
     (case getUserNumber (range' this) (showHMAC this w) of
        Return userNum w1 \<Rightarrow> Return (js_rem (userNum + number this) (range' this)) (reveal this w1)
      | Throw e w1 \<Rightarrow> Throw e w1
      | Exit c w1 \<Rightarrow> Exit c w1
      | Blocked w1 \<Rightarrow> Blocked w1)"

section \<open>Dice and Probability\<close>

definition Dice_new :: "int list \<Rightarrow> error + dice" where
  "Dice_new fs = (if length fs < 1 then Inl DiceMustHaveFaces else Inr \<lparr>faces = fs\<rparr>)"

text \<open>
  \<^verbatim>\<open>for (let a of d1.faces) for (let b of d2.faces) { total++; if (a > b) wins++; }\<close>
  with the pair of counters \<open>(wins, total)\<close>.
\<close>

fun winProb_inner :: "int \<Rightarrow> int list \<Rightarrow> nat \<times> nat \<Rightarrow> nat \<times> nat" where
  "winProb_inner a [] (wins, total') = (wins, total')"
| "winProb_inner a (b # bs) (wins, total') =
     winProb_inner a bs (if a > b then wins + 1 else wins, total' + 1)"

fun winProb_outer :: "int list \<Rightarrow> int list \<Rightarrow> nat \<times> nat \<Rightarrow> nat \<times> nat" where
  "winProb_outer [] bs acc = acc"
| "winProb_outer (a # as) bs acc = winProb_outer as bs (winProb_inner a bs acc)"

text \<open>
  \<^verbatim>\<open>wins / total\<close> on the two counters, taken as the exact quotient (the program
  rounds it to the nearest double); \<open>0 / 0\<close> is \<^verbatim>\<open>NaN\<close>.
\<close>

definition winProb :: "dice \<Rightarrow> dice \<Rightarrow> rat option" where
  "winProb d1 d2 =
     (case winProb_outer (faces d1) (faces d2) (0, 0) of
        (wins, total') \<Rightarrow> if total' = 0 then None else Some (of_nat wins / of_nat total'))"

text \<open>
  The value that the program returns is a double. A double is a rational
  \<open>m * 2^(e - 52)\<close> with \<open>|m| < 2^53\<close> and \<open>-1022 \<le> e \<le> 1023\<close>, an infinity or
  \<^verbatim>\<open>NaN\<close>; the sign of a zero is not kept. \<open>binade x\<close> is the exponent \<open>e\<close> with
  \<open>2^e \<le> |x| < 2^(e + 1)\<close>, and \<open>toDouble\<close> rounds a rational to the nearest double,
  a tie to the even significand, as IEEE 754 arithmetic does with the exact
  result of every operation.
\<close>

datatype double = Finite rat | PosInfinity | NegInfinity | NaN

definition binade :: "rat \<Rightarrow> int" where
  "binade x =
     (let d = bitlen (fst (quotient_of \<bar>x\<bar>)) - bitlen (snd (quotient_of \<bar>x\<bar>))
      in if 2 powi d \<le> \<bar>x\<bar> then d else d - 1)"

definition roundHalfEven :: "rat \<Rightarrow> int" where
  "roundHalfEven y =
     (let f = \<lfloor>y\<rfloor>; r = y - of_int f
      in if r < 1 / 2 then f else if 1 / 2 < r then f + 1 else if even f then f else f + 1)"

definition toDouble :: "rat \<Rightarrow> double" where
  "toDouble x =
     (if x = 0 then Finite 0
      else let e = max (binade x) (- 1022);
               r = of_int (roundHalfEven (\<bar>x\<bar> * 2 powi (52 - e))) * 2 powi (e - 52)
           in if 2 powi 1024 \<le> r then (if 0 < x then PosInfinity else NegInfinity)
              else Finite (sgn x * r))"

text \<open>
  \<^verbatim>\<open>wins / total\<close> in doubles, for counters below \<open>2^53\<close> (which are doubles
  themselves), and \<^verbatim>\<open>+\<close> on doubles.
\<close>

definition js_div_counters :: "nat \<Rightarrow> nat \<Rightarrow> double" where
  "js_div_counters wins total' =
     (if total' = 0 then (if wins = 0 then NaN else PosInfinity)
      else toDouble (of_nat wins / of_nat total'))"

fun js_add :: "double \<Rightarrow> double \<Rightarrow> double" where
  "js_add (Finite a) (Finite b) = toDouble (a + b)"
| "js_add NaN _ = NaN"
| "js_add _ NaN = NaN"
| "js_add PosInfinity NegInfinity = NaN"
| "js_add NegInfinity PosInfinity = NaN"
| "js_add PosInfinity _ = PosInfinity"
| "js_add _ PosInfinity = PosInfinity"
| "js_add NegInfinity _ = NegInfinity"
| "js_add _ NegInfinity = NegInfinity"

text \<open>\<^verbatim>\<open>winProb\<close> with the division of the program: the same loops, the quotient as a double.\<close>

definition winProb_double :: "dice \<Rightarrow> dice \<Rightarrow> double" where
  "winProb_double d1 d2 =
     (case winProb_outer (faces d1) (faces d2) (0, 0) of
        (wins, total') \<Rightarrow> js_div_counters wins total')"

section \<open>Game\<close>

text \<open>
  The platform's random picks. \<^verbatim>\<open>Math.floor(Math.random() * m)\<close> is an integer
  \<open>k\<close> with \<open>0 \<le> k < m\<close> for \<open>m > 0\<close>, is \<open>0\<close> for \<open>m = 0\<close>, and lies in
  \<open>[m, 0]\<close> for \<open>m < 0\<close>; \<^verbatim>\<open>crypto.randomInt(min, max)\<close> is an integer \<open>k\<close> with
  \<open>min \<le> k < max\<close>, and throws unless \<open>min < max\<close> and \<open>max - min \<le> 2^48 - 1\<close>.
  Which \<open>k\<close> it is comes from the next value of \<open>chance\<close>, so that every
  \<open>k\<close> of the interval can occur.
\<close>

definition mathFloorRandomTimes :: "int \<Rightarrow> world \<Rightarrow> int \<times> world" where
  "mathFloorRandomTimes m w =
     (let c = chance w (cpos w)
      in (if 0 < m then int (c mod nat m)
          else if m = 0 then 0
          else - int (c mod (nat (- m) + 1)),
          w\<lparr>cpos := cpos w + 1\<rparr>))"

definition randomInt :: "int \<Rightarrow> int \<Rightarrow> world \<Rightarrow> int outcome" where
  "randomInt min' max' w =
     (if max' \<le> min' \<or> 281474976710655 < max' - min' then Throw ERR_OUT_OF_RANGE w
      else Return (min' + int (chance w (cpos w) mod nat (max' - min'))) (w\<lparr>cpos := cpos w + 1\<rparr>))"

text \<open>Array reads: \<^verbatim>\<open>xs[i]\<close> is \<^verbatim>\<open>undefined\<close> unless \<open>i\<close> is an index of \<open>xs\<close>.\<close>

definition js_nth :: "'a list \<Rightarrow> int \<Rightarrow> 'a option" where
  "js_nth xs i = (if 0 \<le> i \<and> i < int (length xs) then Some (xs ! nat i) else None)"

definition js_nth_rat :: "'a list \<Rightarrow> rat \<Rightarrow> 'a option" where
  "js_nth_rat xs q = (if q = of_int \<lfloor>q\<rfloor> then js_nth xs \<lfloor>q\<rfloor> else None)"

definition printDice :: "dice list \<Rightarrow> world \<Rightarrow> world" where
  "printDice ds w = emit (Log_Dice ds) w"

text \<open>
  The table: \<open>None\<close> on the diagonal (printed as a dash), else the
  \<^verbatim>\<open>winProb\<close> of row die against column die.
\<close>

definition printProbabilityTable :: "dice list \<Rightarrow> world \<Rightarrow> world" where
  "printProbabilityTable ds w =
     emit (Log_ProbabilityTable
            (map (\<lambda>i. map (\<lambda>j. if i = j then None else Some (winProb (ds ! i) (ds ! j)))
                         [0 ..< length ds])
                 [0 ..< length ds])) w"

text \<open>
  \<^verbatim>\<open>selectDice(exclude)\<close>, with \<^verbatim>\<open>null\<close> as \<open>None\<close>. \<^verbatim>\<open>Number(ans)\<close> on an
  arbitrary line is the platform's conversion, the parameter \<open>toNumber\<close>
  (\<open>None\<close> for \<^verbatim>\<open>NaN\<close> and the infinities, which fail the test of the index alike).
  The flag \<open>rl_closed\<close> is the state of the readline interface \<^verbatim>\<open>rl\<close>: the help
  branch closes it before \<^verbatim>\<open>continue\<close>, and \<^verbatim>\<open>rl.question\<close> on a closed
  interface throws ERR_USE_AFTER_CLOSE (in runtimes before that check the call
  never completes; neither way does the loop return an index after help).
\<close>

function selectDice_loop ::
  "(string \<Rightarrow> rat option) \<Rightarrow> dice list \<Rightarrow> int option \<Rightarrow> bool \<Rightarrow> world \<Rightarrow> rat outcome" where
  "selectDice_loop toNumber ds exclude rl_closed w =
     (let w1 = emit (Log_SelectMenu exclude) w
      in if rl_closed then Throw ERR_USE_AFTER_CLOSE w1
         else case stdin w1 of
                [] \<Rightarrow> Blocked (emit Ask_Choice w1)
              | ans # rest \<Rightarrow>
                  (let w2 = (emit Ask_Choice w1)\<lparr>stdin := rest\<rparr>
                   in if ans = ''e'' then Exit 0 w2
                      else if ans = ''h''
                      then selectDice_loop toNumber ds exclude True (printProbabilityTable ds w2)
                      else case toNumber ans of
                             None \<Rightarrow> selectDice_loop toNumber ds exclude False (emit Log_InvalidChoice w2)
                           | Some n \<Rightarrow>
                               (let idx = n - 1
                                in if 0 \<le> idx \<and> idx < of_nat (length ds)
                                      \<and> (case exclude of None \<Rightarrow> True | Some x \<Rightarrow> idx \<noteq> of_int x)
                                   then Return idx w2
                                   else selectDice_loop toNumber ds exclude False
                                          (emit Log_InvalidChoice w2))))"
  by pat_completeness auto
termination
  by (relation "measure (\<lambda>(t, ds, x, c, w). length (stdin w))")
     (auto simp: emit_def printProbabilityTable_def)

declare selectDice_loop.simps [simp del]

definition selectDice ::
  "(string \<Rightarrow> rat option) \<Rightarrow> dice list \<Rightarrow> int option \<Rightarrow> world \<Rightarrow> rat outcome" where
  "selectDice toNumber ds exclude w = selectDice_loop toNumber ds exclude False w"

text \<open>The verdict; a comparison with \<^verbatim>\<open>undefined\<close> is false, which leaves the tie.\<close>

definition verdict_of :: "int option \<Rightarrow> int option \<Rightarrow> verdict" where
  "verdict_of u c =
     (case (u, c) of
        (Some x, Some y) \<Rightarrow> if x > y then YouWin else if x < y then ComputerWins else Tie
      | _ \<Rightarrow> Tie)"

definition face_at :: "dice \<Rightarrow> int option \<Rightarrow> int option" where
  "face_at d i = (case i of None \<Rightarrow> None | Some k \<Rightarrow> js_nth (faces d) k)"

subsection \<open>The commit-reveal variant\<close>

text \<open>
  \<^verbatim>\<open>Game.play\<close> of \<^verbatim>\<open>src/unnamed/part_000\<close> in its three phases: who selects
  first (lines 150-156), the selection of the dice (158-172), the two rolls and the
  verdict (175-196).
\<close>

definition firstSum_cr :: "FairRandom \<Rightarrow> int option \<Rightarrow> int option" where
  "firstSum_cr frp firstUserNum =
     (case firstUserNum of None \<Rightarrow> None | Some v \<Rightarrow> js_rem (number frp + v) 2)"

definition decideFirst_cr :: "hmac_fn \<Rightarrow> world \<Rightarrow> bool outcome option" where
  "decideFirst_cr H w =
     bind (FairRandom_new H 2 (emit Log_Deciding w)) (\<lambda>frp w1.
     bind (Some (getResult frp w1)) (\<lambda>firstUserNum w2.
       let firstSum = firstSum_cr frp firstUserNum;
           userFirst = (firstSum = Some 0)
       in Some (Return userFirst (emit (Log_SelectsFirst userFirst) (emit (Log_Result firstSum) w2)))))"

definition selectPhase_cr ::
  "(string \<Rightarrow> rat option) \<Rightarrow> dice list \<Rightarrow> bool \<Rightarrow> world \<Rightarrow> (rat \<times> int option) outcome option" where
  "selectPhase_cr toNumber ds userFirst w =
     (if userFirst
      then bind (Some (selectDice toNumber ds None w)) (\<lambda>userDice w1.
             let pick = mathFloorRandomTimes (int (length ds) - 1) w1;
                 compDice = js_nth (filter (\<lambda>i. of_int i \<noteq> userDice) (map int [0 ..< length ds])) (fst pick)
             in Some (Return (userDice, compDice) (emit (Log_ComputerSelects compDice) (snd pick))))
      else let pick = mathFloorRandomTimes (int (length ds)) w;
               compDice = fst pick
           in bind (Some (selectDice toNumber ds (Some compDice)
                            (emit (Log_ComputerSelects (Some compDice)) (snd pick)))) (\<lambda>userDice w1.
                Some (Return (userDice, Some compDice) w1)))"

definition dice_of_comp :: "dice list \<Rightarrow> int option \<Rightarrow> dice option" where
  "dice_of_comp ds c = (case c of None \<Rightarrow> None | Some k \<Rightarrow> js_nth ds k)"

definition rolls_cr :: "hmac_fn \<Rightarrow> dice list \<Rightarrow> rat \<Rightarrow> int option \<Rightarrow> world \<Rightarrow> verdict outcome option" where
  "rolls_cr H ds userDice compDice w =
     (case js_nth_rat ds userDice of
        None \<Rightarrow> Some (Throw TypeError (emit Log_YourTurn w))
      | Some ud \<Rightarrow>
          bind (FairRandom_new H (int (length (faces ud))) (emit Log_YourTurn w)) (\<lambda>userRoll w1.
          bind (Some (getResult userRoll w1)) (\<lambda>userRollRes w2.
            let w3 = emit Log_ComputersTurn (emit (Log_YouRolled (face_at ud userRollRes)) w2)
            in case dice_of_comp ds compDice of
                 None \<Rightarrow> Some (Throw TypeError w3)
               | Some cd \<Rightarrow>
                   bind (FairRandom_new H (int (length (faces cd))) w3) (\<lambda>compRoll w4.
                   bind (Some (getUserNumber (range' compRoll) (showHMAC compRoll w4))) (\<lambda>compUserNum w5.
                     let compRollRes = js_rem (number compRoll + compUserNum) (int (length (faces cd)));
                         v = verdict_of (face_at ud userRollRes) (face_at cd compRollRes)
                     in Some (Return v (emit (Log_Verdict v)
                               (emit (Log_ComputerRolled (face_at cd compRollRes)) (reveal compRoll w5)))))))))"

definition play_cr :: "hmac_fn \<Rightarrow> (string \<Rightarrow> rat option) \<Rightarrow> dice list \<Rightarrow> world \<Rightarrow> verdict outcome option" where
  "play_cr H toNumber ds w =
     bind (decideFirst_cr H (printDice ds (emit Log_Welcome w))) (\<lambda>userFirst w1.
     bind (selectPhase_cr toNumber ds userFirst w1) (\<lambda>sel w2.
       rolls_cr H ds (fst sel) (snd sel)
         (emit (Log_ComputerDice (snd sel)) (emit (Log_YourDice (fst sel)) w2))))"

subsection \<open>The plain variant\<close>

text \<open>
  \<^verbatim>\<open>Game.play\<close> of \<^verbatim>\<open>src/task3.js\<close>: who selects first (lines 117-126), the
  selection (128-141), the rolls and the verdict (143-160).
\<close>

definition decideFirst_plain :: "world \<Rightarrow> bool outcome option" where
  "decideFirst_plain w =
     bind (Some (getUserNumber 2 (emit Log_Deciding w))) (\<lambda>userNum w1.
     bind (Some (randomInt 0 2 w1)) (\<lambda>compNum w2.
       let result = js_rem (userNum + compNum) 2;
           userFirst = (result = Some 0)
       in Some (Return userFirst
            (emit (Log_SelectsFirst userFirst) (emit (Log_Result result)
              (emit (Log_ComputersNumber compNum) (emit (Log_YourNumber userNum) w2)))))))"

definition selectPhase_plain ::
  "(string \<Rightarrow> rat option) \<Rightarrow> dice list \<Rightarrow> bool \<Rightarrow> world \<Rightarrow> (rat \<times> int option) outcome option" where
  "selectPhase_plain toNumber ds userFirst w =
     (if userFirst
      then bind (Some (selectDice toNumber ds None w)) (\<lambda>userDice w1.
             let choices = filter (\<lambda>i. of_int i \<noteq> userDice) (map int [0 ..< length ds])
             in bind (Some (randomInt 0 (int (length choices)) w1)) (\<lambda>k w2.
                  let compDice = js_nth choices k
                  in Some (Return (userDice, compDice) (emit (Log_ComputerSelects compDice) w2))))
      else bind (Some (randomInt 0 (int (length ds)) w)) (\<lambda>compDice w1.
           bind (Some (selectDice toNumber ds (Some compDice)
                         (emit (Log_ComputerSelects (Some compDice)) w1))) (\<lambda>userDice w2.
             Some (Return (userDice, Some compDice) w2))))"

definition rolls_plain :: "dice list \<Rightarrow> rat \<Rightarrow> int option \<Rightarrow> world \<Rightarrow> verdict outcome option" where
  "rolls_plain ds userDice compDice w =
     (case js_nth_rat ds userDice of
        None \<Rightarrow> Some (Throw TypeError (emit Log_YourTurn w))
      | Some ud \<Rightarrow>
          bind (Some (randomInt 0 (int (length (faces ud))) (emit Log_YourTurn w))) (\<lambda>userRollIdx w1.
            let w2 = emit Log_ComputersTurn (emit (Log_YouRolled (js_nth (faces ud) userRollIdx)) w1)
            in case dice_of_comp ds compDice of
                 None \<Rightarrow> Some (Throw TypeError w2)
               | Some cd \<Rightarrow>
                   bind (Some (randomInt 0 (int (length (faces cd))) w2)) (\<lambda>compRollIdx w3.
                     let userVal = js_nth (faces ud) userRollIdx;
                         compVal = js_nth (faces cd) compRollIdx;
                         v = verdict_of userVal compVal
                     in Some (Return v (emit (Log_Verdict v) (emit (Log_ComputerRolled compVal) w3))))))"

definition play_plain :: "(string \<Rightarrow> rat option) \<Rightarrow> dice list \<Rightarrow> world \<Rightarrow> verdict outcome option" where
  "play_plain toNumber ds w =
     bind (decideFirst_plain (printDice ds (emit Log_Welcome w))) (\<lambda>userFirst w1.
     bind (selectPhase_plain toNumber ds userFirst w1) (\<lambda>sel w2.
       rolls_plain ds (fst sel) (snd sel)
         (emit (Log_ComputerDice (snd sel)) (emit (Log_YourDice (fst sel)) w2))))"

section \<open>Notions of the specification\<close>

text \<open>
  The \<open>k\<close>-th unsigned 32-bit big-endian draw that a sampler started in world \<open>w\<close>
  makes, and the rejection threshold of the algorithm, \<open>2^32 - (2^32 mod range)\<close>.
\<close>

definition draw :: "world \<Rightarrow> nat \<Rightarrow> int" where
  "draw w k = bigIntOfHex (map (entropy w) [epos w + 4 * k ..< epos w + 4 * k + 4])"

definition threshold :: "int \<Rightarrow> int" where
  "threshold r = 2 ^ 32 - (2 ^ 32 mod r)"

text \<open>
  The number of ordered pairs \<open>(x, y)\<close>, \<open>x\<close> a face of the first die and \<open>y\<close> a
  face of the second, that stand in relation \<open>P\<close>; and the probability of a tie
  over the same pair space.
\<close>

definition count_pairs :: "(int \<Rightarrow> int \<Rightarrow> bool) \<Rightarrow> int list \<Rightarrow> int list \<Rightarrow> nat" where
  "count_pairs P xs ys = length (filter (\<lambda>(x, y). P x y) (List.product xs ys))"

definition tieProbability :: "dice \<Rightarrow> dice \<Rightarrow> rat" where
  "tieProbability a b =
     of_nat (count_pairs (=) (faces a) (faces b)) / of_nat (length (faces a) * length (faces b))"

text \<open>
  Modelled from the spec: \<^verbatim>\<open>verify(commitment, secretValue, key)\<close> is not in the
  source, where the user checks the printed HMAC by hand. Following the
  specification it recomputes \<^verbatim>\<open>commit(secretValue, key)\<close>, which is \<open>calcHMAC\<close>,
  and compares the result with the commitment for equality.
\<close>

definition verify :: "hmac_fn \<Rightarrow> string \<Rightarrow> int \<Rightarrow> byte list \<Rightarrow> error + bool" where
  "verify H commitment secretValue key' =
     (case calcHMAC H key' secretValue of
        Inl e \<Rightarrow> Inl e
      | Inr c \<Rightarrow> Inr (c = commitment))"

text \<open>
  The order of the steps of one draw, read off the console: the commitment is
  shown (\<open>Log_HMAC\<close>), then the user's number is asked for (\<open>Ask_Number\<close>, again
  after an invalid line), then key and number are revealed (\<open>Log_Key\<close>,
  \<open>Log_ComputerNumber\<close>). \<open>pstep\<close> is \<open>None\<close> where an event comes out of this
  order; the other events do not belong to a draw and leave the state as it is.
\<close>

datatype pstate = Idle | Committed | Asked | KeyShown

fun pstep :: "pstate \<Rightarrow> event \<Rightarrow> pstate option" where
  "pstep s (Log_HMAC h) = (if s = Idle then Some Committed else None)"
| "pstep s (Ask_Number m) = (if s = Committed \<or> s = Asked then Some Asked else None)"
| "pstep s (Log_Key k) = (if s = Asked then Some KeyShown else None)"
| "pstep s (Log_ComputerNumber n) = (if s = KeyShown then Some Idle else None)"
| "pstep s _ = Some s"

fun prun :: "pstate \<Rightarrow> event list \<Rightarrow> pstate option" where
  "prun s [] = Some s"
| "prun s (e # es) = (case pstep s e of None \<Rightarrow> None | Some s' \<Rightarrow> prun s' es)"

definition pafter :: "world \<Rightarrow> pstate option" where
  "pafter w = prun Idle (out w)"

definition world_of :: "'a outcome \<Rightarrow> world" where
  "world_of oc = (case oc of Return a w \<Rightarrow> w | Throw e w \<Rightarrow> w | Exit c w \<Rightarrow> w | Blocked w \<Rightarrow> w)"

definition value_of :: "'a outcome \<Rightarrow> 'a option" where
  "value_of oc = (case oc of Return a w \<Rightarrow> Some a | _ \<Rightarrow> None)"

definition protocol_state_after :: "'a outcome \<Rightarrow> pstate option" where
  "protocol_state_after oc = pafter (world_of oc)"

text \<open>
  A run follows the protocol when its console output never leaves the order of
  the steps, and a run that returns has completed every draw it began.
\<close>

definition follows_protocol :: "'a outcome \<Rightarrow> bool" where
  "follows_protocol oc =
     (case oc of
        Return a w \<Rightarrow> pafter w = Some Idle
      | Throw e w \<Rightarrow> pafter w \<noteq> None
      | Exit c w \<Rightarrow> pafter w \<noteq> None
      | Blocked w \<Rightarrow> pafter w \<noteq> None)"

text \<open>The two selected indices differ (\<^verbatim>\<open>undefined\<close> is no index).\<close>

definition distinct_dice :: "rat \<Rightarrow> int option \<Rightarrow> bool" where
  "distinct_dice userDice compDice = (map_option of_int compDice \<noteq> Some userDice)"

text \<open>
  \<open>ensures m Q\<close>: if the computation \<open>m\<close> returns, \<open>Q\<close> holds of its value and
  world; if it ends otherwise, the console output so far is in order.
\<close>

definition ensures :: "'a outcome option \<Rightarrow> ('a \<Rightarrow> world \<Rightarrow> bool) \<Rightarrow> bool" where
  "ensures m Q =
     (case m of
        None \<Rightarrow> True
      | Some (Return a w) \<Rightarrow> Q a w
      | Some (Throw e w) \<Rightarrow> pafter w \<noteq> None
      | Some (Exit c w) \<Rightarrow> pafter w \<noteq> None
      | Some (Blocked w) \<Rightarrow> pafter w \<noteq> None)"

subsection \<open>Concrete data\<close>

definition die_A :: dice where "die_A = \<lparr>faces = [2, 2, 4, 4, 9, 9]\<rparr>"
definition die_B :: dice where "die_B = \<lparr>faces = [1, 1, 6, 6, 8, 8]\<rparr>"
definition die_C :: dice where "die_C = \<lparr>faces = [3, 3, 5, 5, 7, 7]\<rparr>"

text \<open>
  A world whose first four random bytes are \<open>0xFF\<close> and all later ones \<open>0x01\<close>,
  with five lines waiting on standard input.
\<close>

definition demo_world :: world where
  "demo_world =
     \<lparr>stdin = [''x'', ''1'', ''2'', ''0'', ''3''],
      entropy = (\<lambda>i. if i < 4 then 255 else 1), epos = 0,
      chance = (\<lambda>i. 5), cpos = 0, out = []\<rparr>"

text \<open>
  A keyed function standing in for the HMAC, a conversion that agrees with
  \<^verbatim>\<open>Number\<close> on strings of digits, and a session over the range 2.
\<close>

definition demo_hmac :: hmac_fn where
  "demo_hmac k m = map (\<lambda>b. ''0123456789abcdef'' ! (unat (b + hd k) mod 16)) m"

definition demo_toNumber :: "string \<Rightarrow> rat option" where
  "demo_toNumber s = (if testDigits s then Some (of_int (numberOfDigits s)) else None)"

definition demo_session :: FairRandom where
  "demo_session = \<lparr>range' = 2, key = replicate 32 7, number = 1, hmac = ''7778''\<rparr>"

section \<open>The sampler\<close>

lemma bigIntOfHex_acc_nonneg:
  "0 \<le> a \<Longrightarrow> 0 \<le> foldl (\<lambda>acc b. acc * 256 + uint b) a (bs :: byte list)"
  by (induction bs arbitrary: a) simp_all

lemma bigIntOfHex_nonneg: "0 \<le> bigIntOfHex bs"
  by (simp add: bigIntOfHex_def bigIntOfHex_acc_nonneg)

lemma draw_nonneg: "0 \<le> draw w k"
  by (simp add: draw_def bigIntOfHex_nonneg)

lemma upt_4: "[n ..< n + 4] = [n, n + 1, n + 2, n + 3]"
  by (simp add: upt_rec [of n] upt_rec [of "Suc n"] upt_rec [of "Suc (Suc n)"]
        upt_rec [of "Suc (Suc (Suc n))"])

lemma draw_bytes:
  "draw w k =
     uint (entropy w (epos w + 4 * k)) * 16777216 + uint (entropy w (epos w + 4 * k + 1)) * 65536
       + uint (entropy w (epos w + 4 * k + 2)) * 256 + uint (entropy w (epos w + 4 * k + 3))"
  by (simp add: draw_def upt_4 bigIntOfHex_def)

lemma draw_lt: "draw w k < 2 ^ 32"
proof -
  have "uint b \<le> 255" for b :: byte
    using uint_bounded [of b] by simp
  from this [of "entropy w (epos w + 4 * k)"] this [of "entropy w (epos w + 4 * k + 1)"]
    this [of "entropy w (epos w + 4 * k + 2)"] this [of "entropy w (epos w + 4 * k + 3)"]
  show ?thesis by (simp add: draw_bytes)
qed

lemma smod_nonneg_pos: "0 \<le> a \<Longrightarrow> 0 < b \<Longrightarrow> a smod b = a mod (b::int)"
  by (cases "a = 0") (simp_all add: smod_int_alt_def)

text \<open>One turn of the loop, for a range other than zero.\<close>

lemma uniformRandom_step:
  "r \<noteq> 0 \<Longrightarrow> uniformRandom r w =
     (if draw w 0 < 2 ^ 32 - (2 ^ 32 smod r)
      then Some (Return (draw w 0 smod r) (w\<lparr>epos := epos w + 4\<rparr>))
      else uniformRandom r (w\<lparr>epos := epos w + 4\<rparr>))"
  by (subst uniformRandom.simps) (simp add: Let_def randomBytes_def draw_def)

lemma draw_shift: "draw (w\<lparr>epos := epos w + 4\<rparr>) j = draw w (Suc j)"
  by (simp add: draw_def add.commute add.left_commute)

lemma uniformRandom_first:
  assumes "1 \<le> r"
    and "\<forall>j<k. \<not> draw w j < threshold r" and "draw w k < threshold r"
  shows "uniformRandom r w = Some (Return (draw w k mod r) (w\<lparr>epos := epos w + 4 * Suc k\<rparr>))"
  using assms
proof (induction k arbitrary: w)
  case 0
  then show ?case
    by (simp add: uniformRandom_step threshold_def smod_nonneg_pos draw_nonneg)
next
  case (Suc k)
  let ?w1 = "w\<lparr>epos := epos w + 4\<rparr>"
  from Suc.prems have rej: "\<not> draw w 0 < threshold r" by blast
  have "\<forall>j<k. \<not> draw ?w1 j < threshold r" "draw ?w1 k < threshold r"
    using Suc.prems by (simp_all add: draw_shift)
  with Suc.IH [of ?w1] Suc.prems(1)
  have "uniformRandom r ?w1 = Some (Return (draw ?w1 k mod r) (?w1\<lparr>epos := epos ?w1 + 4 * Suc k\<rparr>))"
    by blast
  moreover have "uniformRandom r w = uniformRandom r ?w1"
    using rej Suc.prems(1) by (simp add: uniformRandom_step threshold_def smod_nonneg_pos)
  ultimately show ?case by (simp add: draw_shift add.assoc)
qed

text \<open>
  Claim C1. For a range from 1 to \<open>2^32\<close>, when the draws before the \<open>k\<close>-th are at
  or above the threshold \<open>2^32 - (2^32 mod range)\<close> and the \<open>k\<close>-th is below it, the
  sampler returns the \<open>k\<close>-th draw modulo the range, having consumed \<open>4 * (k + 1)\<close>
  bytes; the value returned lies in \<open>[0, range)\<close>.
\<close>

theorem uniformRandom_returns_first_accepted:
  assumes "1 \<le> r" and "r \<le> 2 ^ 32"
    and "\<forall>j<k. \<not> draw w j < threshold r" and "draw w k < threshold r"
  shows "uniformRandom r w = Some (Return (draw w k mod r) (w\<lparr>epos := epos w + 4 * Suc k\<rparr>))
         \<and> 0 \<le> draw w k mod r \<and> draw w k mod r < r"
  using uniformRandom_first [OF assms(1) assms(3) assms(4)] assms(1) by simp

theorem uniformRandom_returns_first_accepted_witness:
  "(1::int) \<le> 3 \<and> (3::int) \<le> 2 ^ 32
   \<and> \<not> draw demo_world 0 < threshold 3 \<and> draw demo_world 1 < threshold 3
   \<and> uniformRandom 3 demo_world = Some (Return 1 (demo_world\<lparr>epos := 8\<rparr>))"
proof -
  have a: "\<forall>j<1. \<not> draw demo_world j < threshold 3"
    by (simp add: draw_bytes demo_world_def threshold_def)
  have b: "draw demo_world 1 < threshold 3"
    by (simp add: draw_bytes demo_world_def threshold_def)
  have c: "draw demo_world 1 mod 3 = 1"
    by (simp add: draw_bytes demo_world_def)
  show ?thesis
    using uniformRandom_returns_first_accepted [of 3 1 demo_world, OF _ _ a b] a b c
    by (simp add: demo_world_def)
qed

text \<open>
  Claim C5, as the code has it. A range of zero makes the sampler throw the
  RangeError of BigInt division by zero, after its first draw, and return no value.
  The sampler has no check of its own on the range: a negative range is not
  refused (the counterexample below returns \<open>0\<close> for the range \<open>-1\<close>).
\<close>

theorem uniformRandom_zero_range_throws:
  "uniformRandom 0 w = Some (Throw RangeError_DivisionByZero (w\<lparr>epos := epos w + 4\<rparr>))"
  by (subst uniformRandom.simps) (simp add: Let_def randomBytes_def)

text \<open>
  Claim C5, the counterexample. With the range \<open>-1\<close> the sampler accepts its first
  draw and returns \<open>0\<close>: a range below 1 that does not fail.
\<close>

theorem uniformRandom_negative_range_returns:
  "uniformRandom (- 1) demo_world = Some (Return 0 (demo_world\<lparr>epos := 4\<rparr>))"
  by (subst uniformRandom.simps)
     (simp add: Let_def randomBytes_def demo_world_def upt_4 [of 0, simplified]
        bigIntOfHex_def smod_int_alt_def)

text \<open>
  Whatever the sampler does, it only advances the position in the byte stream;
  it returns a truncated remainder of a draw, throws for the range zero only, and
  neither exits nor waits for input.
\<close>

lemma uniformRandom_sound:
  assumes "uniformRandom r w = Some oc"
  shows "(\<exists>n. world_of oc = w\<lparr>epos := n\<rparr>) \<and>
     (case oc of
        Return v w' \<Rightarrow> r \<noteq> 0 \<and> (\<exists>d. 0 \<le> d \<and> v = d smod r)
      | Throw e w' \<Rightarrow> r = 0 \<and> e = RangeError_DivisionByZero
      | Exit c w' \<Rightarrow> False
      | Blocked w' \<Rightarrow> False)"
proof (rule uniformRandom.raw_induct [OF _ assms], goal_cases)
  case (1 f r w oc)
  show ?case
  proof (cases "r = 0")
    case True
    with 1(2) show ?thesis by (auto simp: Let_def randomBytes_def world_of_def)
  next
    case False
    show ?thesis
    proof (cases "bigIntOfHex (fst (randomBytes 4 w)) < 2 ^ 32 - (2 ^ 32 smod r)")
      case True
      with False 1(2)
      have oc: "oc = Return (bigIntOfHex (fst (randomBytes 4 w)) smod r) (snd (randomBytes 4 w))"
        by (simp add: Let_def)
      have "\<exists>d. 0 \<le> d \<and> bigIntOfHex (fst (randomBytes 4 w)) smod r = d smod r"
        using bigIntOfHex_nonneg by blast
      with False show ?thesis
        unfolding oc by (auto simp: randomBytes_def world_of_def)
    next
      case acc: False
      with False 1(2) have "f r (snd (randomBytes 4 w)) = Some oc"
        by (simp add: Let_def)
      from 1(1) [OF this] show ?thesis
        by (simp add: randomBytes_def)
    qed
  qed
qed

lemma uniformRandom_Return_range:
  assumes "uniformRandom r w = Some (Return v w')" and "1 \<le> r"
  shows "0 \<le> v \<and> v < r"
proof -
  from uniformRandom_sound [OF assms(1)] obtain d where "0 \<le> d" "v = d smod r"
    by auto
  with assms(2) show ?thesis by (simp add: smod_nonneg_pos)
qed

text \<open>
  For a range from 1 to \<open>2^32\<close> the threshold is a multiple of the range, at least
  the range and at most \<open>2^32\<close>: some draws are accepted.
\<close>

lemma threshold_multiple:
  assumes "1 \<le> r" and "r \<le> 2 ^ 32"
  shows "r \<le> threshold r \<and> threshold r \<le> 2 ^ 32 \<and> threshold r mod r = 0"
proof -
  have t: "threshold r = r * (2 ^ 32 div r)"
    unfolding threshold_def by (simp add: minus_mod_eq_mult_div)
  have "r div r \<le> 2 ^ 32 div r"
    using assms by (intro zdiv_mono1) simp_all
  then have "1 \<le> (2 ^ 32 :: int) div r"
    using assms(1) by simp
  then have "r * 1 \<le> r * (2 ^ 32 div r)"
    using assms(1) by (intro mult_left_mono) simp_all
  then have 1: "r \<le> threshold r" unfolding t by simp
  have "0 \<le> (2 ^ 32 :: int) mod r" using assms(1) by simp
  then have 2: "threshold r \<le> 2 ^ 32" unfolding threshold_def by simp
  have 3: "threshold r mod r = 0" unfolding t by simp
  from 1 2 3 show ?thesis by simp
qed

text \<open>
  The sampler ends only on an accepted draw: where every draw is at or above the
  threshold it has no outcome, as happens for every range above \<open>2^32\<close>.
\<close>

lemma uniformRandom_accepts:
  assumes "uniformRandom r w = Some oc" and "1 \<le> r"
  shows "\<exists>k. draw w k < threshold r"
proof -
  have "1 \<le> r \<longrightarrow> (\<exists>k. draw w k < threshold r)"
  proof (rule uniformRandom.raw_induct [OF _ assms(1)], goal_cases)
    case (1 f r w oc)
    show ?case
    proof
      assume r: "1 \<le> r"
      show "\<exists>k. draw w k < threshold r"
      proof (cases "draw w 0 < threshold r")
        case True
        then show ?thesis by blast
      next
        case False
        then have "\<not> bigIntOfHex (fst (randomBytes 4 w)) < 2 ^ 32 - (2 ^ 32 smod r)"
          using r by (simp add: draw_def randomBytes_def threshold_def smod_nonneg_pos)
        with r 1(2) have "f r (snd (randomBytes 4 w)) = Some oc"
          by (simp add: Let_def)
        from 1(1) [OF this] r obtain k where "draw (snd (randomBytes 4 w)) k < threshold r"
          by blast
        then have "draw w (Suc k) < threshold r"
          by (simp add: randomBytes_def draw_shift)
        then show ?thesis by blast
      qed
    qed
  qed
  with assms(2) show ?thesis by simp
qed

lemma uniformRandom_never_returns:
  assumes "1 \<le> r" and "\<And>k. \<not> draw w k < threshold r"
  shows "uniformRandom r w = None"
proof (cases "uniformRandom r w")
  case None
  then show ?thesis .
next
  case (Some oc)
  from uniformRandom_accepts [OF Some assms(1)] assms(2) show ?thesis by blast
qed

lemma uniformRandom_range_too_large:
  assumes "2 ^ 32 < r"
  shows "uniformRandom r w = None"
proof (rule uniformRandom_never_returns)
  show "1 \<le> r" using assms by simp
next
  fix k
  have "threshold r = 0" using assms by (simp add: threshold_def)
  then show "\<not> draw w k < threshold r" using draw_nonneg [of w k] by simp
qed

section \<open>Win probabilities\<close>

lemma count_pairs_Nil [simp]: "count_pairs P [] ys = 0"
  by (simp add: count_pairs_def)

lemma count_pairs_Cons:
  "count_pairs P (x # xs) ys = length (filter (P x) ys) + count_pairs P xs ys"
  by (simp add: count_pairs_def filter_map comp_def)

lemma count_pairs_Nil2 [simp]: "count_pairs P xs [] = 0"
  by (induction xs) (simp_all add: count_pairs_Cons)

lemma count_pairs_Cons2:
  "count_pairs P xs (y # ys) = length (filter (\<lambda>x. P x y) xs) + count_pairs P xs ys"
  by (induction xs) (simp_all add: count_pairs_Cons)

lemma count_pairs_swap: "count_pairs P xs ys = count_pairs (\<lambda>y x. P x y) ys xs"
  by (induction xs) (simp_all add: count_pairs_Cons count_pairs_Cons2)

lemma count_pairs_greater_swap: "count_pairs (>) ys xs = count_pairs (<) xs ys"
  by (subst count_pairs_swap) simp

text \<open>The two loops, with any starting values of the counters.\<close>

lemma winProb_inner_count:
  "winProb_inner a bs (wins, t) = (wins + length (filter (\<lambda>b. a > b) bs), t + length bs)"
  by (induction bs arbitrary: wins t) simp_all

lemma winProb_outer_count:
  "winProb_outer as bs (wins, t) = (wins + count_pairs (>) as bs, t + length as * length bs)"
  by (induction as arbitrary: wins t) (simp_all add: winProb_inner_count count_pairs_Cons)

lemma winProb_count:
  "faces a \<noteq> [] \<Longrightarrow> faces b \<noteq> [] \<Longrightarrow>
   winProb a b =
     Some (of_nat (count_pairs (>) (faces a) (faces b)) / of_nat (length (faces a) * length (faces b)))"
  by (simp add: winProb_def winProb_outer_count)

lemma trichotomy_filter:
  "length (filter (\<lambda>b. (a::int) > b) bs) + length (filter (\<lambda>b. a < b) bs)
     + length (filter (\<lambda>b. a = b) bs) = length bs"
  by (induction bs) auto

lemma count_pairs_trichotomy:
  "count_pairs (>) xs ys + count_pairs (<) xs ys + count_pairs (=) xs ys = length xs * length ys"
proof (induction xs)
  case Nil
  show ?case by simp
next
  case (Cons x xs)
  have "length (filter ((>) x) ys) + length (filter ((<) x) ys) + length (filter ((=) x) ys)
          = length ys"
    using trichotomy_filter [of x ys] by simp
  with Cons show ?case by (simp add: count_pairs_Cons)
qed

text \<open>
  Claim C6. For two dice that the constructor accepts (each has a face),
  \<^verbatim>\<open>winProb(a, b)\<close> is the number of ordered pairs \<open>(x, y)\<close> with \<open>x > y\<close> divided by
  \<open>|a.faces| * |b.faces|\<close>, and \<^verbatim>\<open>winProb(b, a)\<close> is the number of the pairs with
  \<open>x < y\<close> over the same product: a pair with \<open>x = y\<close> is counted for neither.
\<close>

theorem winProb_counts_strict_pairs:
  assumes "Dice_new fa = Inr a" and "Dice_new fb = Inr b"
  shows "winProb a b =
           Some (of_nat (count_pairs (\<lambda>x y. x > y) (faces a) (faces b))
                  / of_nat (length (faces a) * length (faces b)))
       \<and> winProb b a =
           Some (of_nat (count_pairs (\<lambda>x y. x < y) (faces a) (faces b))
                  / of_nat (length (faces a) * length (faces b)))"
proof -
  from assms have ne: "faces a \<noteq> []" "faces b \<noteq> []"
    by (auto simp: Dice_new_def split: if_splits)
  show ?thesis
    using winProb_count [OF ne] winProb_count [OF ne(2) ne(1)]
    by (simp add: mult.commute count_pairs_greater_swap)
qed

theorem winProb_counts_strict_pairs_witness:
  "Dice_new [2, 2, 4, 4, 9, 9] = Inr die_A \<and> Dice_new [1, 1, 6, 6, 8, 8] = Inr die_B
   \<and> winProb die_A die_B = Some (20 / 36) \<and> winProb die_B die_A = Some (16 / 36)"
proof -
  have a: "Dice_new [2, 2, 4, 4, 9, 9] = Inr die_A"
    by (simp add: Dice_new_def die_A_def)
  have b: "Dice_new [1, 1, 6, 6, 8, 8] = Inr die_B"
    by (simp add: Dice_new_def die_B_def)
  have c: "count_pairs (\<lambda>x y. x > y) (faces die_A) (faces die_B) = 20"
    by (simp add: count_pairs_def die_A_def die_B_def)
  have d: "count_pairs (\<lambda>x y. x < y) (faces die_A) (faces die_B) = 16"
    by (simp add: count_pairs_def die_A_def die_B_def)
  have e: "length (faces die_A) * length (faces die_B) = 36"
    by (simp add: die_A_def die_B_def)
  show ?thesis
    using winProb_counts_strict_pairs [OF a b] a b by (simp only: c d e) simp
qed

text \<open>
  Claim C7. The dice \<open>A = [2,2,4,4,9,9]\<close>, \<open>B = [1,1,6,6,8,8]\<close>, \<open>C = [3,3,5,5,7,7]\<close>
  form a cycle: \<open>A\<close> beats \<open>B\<close>, \<open>B\<close> beats \<open>C\<close> and \<open>C\<close> beats \<open>A\<close>, each with
  probability \<open>5/9\<close>, which is more than one half.
\<close>

theorem winProb_cycle_ABC:
  "winProb die_A die_B = Some (5 / 9) \<and> winProb die_B die_C = Some (5 / 9)
   \<and> winProb die_C die_A = Some (5 / 9) \<and> (1 / 2 :: rat) < 5 / 9"
  by (simp add: winProb_def die_A_def die_B_def die_C_def)

text \<open>
  Of the exact quotients: for two dice of equal face count (with a face at all),
  the three fractions wins over total, losses over total and ties over total add
  up to one. This is a fact of the rationals, not of the doubles that the program
  returns.
\<close>

lemma exact_quotients_sum_to_one:
  assumes "faces a \<noteq> []" and "length (faces a) = length (faces b)"
  shows "\<exists>p q. winProb a b = Some p \<and> winProb b a = Some q \<and> p + q + tieProbability a b = 1"
proof -
  from assms have ne: "faces a \<noteq> []" "faces b \<noteq> []" by auto
  let ?n = "length (faces a) * length (faces b)"
  have pos: "(of_nat ?n :: rat) \<noteq> 0" using ne by simp
  have "(of_nat (count_pairs (>) (faces a) (faces b)) + of_nat (count_pairs (<) (faces a) (faces b))
          + of_nat (count_pairs (=) (faces a) (faces b)) :: rat) = of_nat ?n"
    using count_pairs_trichotomy [of "faces a" "faces b"]
    by (metis of_nat_add)
  then have "(of_nat (count_pairs (>) (faces a) (faces b)) / of_nat ?n
          + of_nat (count_pairs (<) (faces a) (faces b)) / of_nat ?n
          + of_nat (count_pairs (=) (faces a) (faces b)) / of_nat ?n :: rat) = 1"
    using pos by (simp add: add_divide_distrib [symmetric] del: of_nat_mult of_nat_add)
  then show ?thesis
    using winProb_count [OF ne] winProb_count [OF ne(2) ne(1)]
    by (simp add: tieProbability_def mult.commute count_pairs_greater_swap)
qed

text \<open>
  The double that the program returns is the rounding of the exact quotient, and
  \<^verbatim>\<open>NaN\<close> where the exact model has none.
\<close>

lemma winProb_double_rounds_quotient:
  "winProb_double a b = (case winProb a b of None \<Rightarrow> NaN | Some q \<Rightarrow> toDouble q)"
proof (cases "length (faces a) * length (faces b) = 0")
  case True
  then have "count_pairs (>) (faces a) (faces b) = 0" by auto
  with True show ?thesis
    by (simp add: winProb_double_def winProb_def winProb_outer_count js_div_counters_def)
next
  case False
  then show ?thesis
    by (simp add: winProb_double_def winProb_def winProb_outer_count js_div_counters_def)
qed

text \<open>The exponent that \<open>binade\<close> computes is the one of the binade of its argument.\<close>

lemma binade_bounds:
  assumes "x \<noteq> 0"
  shows "2 powi binade x \<le> \<bar>x\<bar> \<and> \<bar>x\<bar> < 2 powi (binade x + 1)"
proof -
  obtain p q where pq: "quotient_of \<bar>x\<bar> = (p, q)" by (cases "quotient_of \<bar>x\<bar>")
  then have q: "0 < q" and x: "\<bar>x\<bar> = of_int p / of_int q"
    by (simp_all add: quotient_of_denom_pos quotient_of_div)
  have "0 < \<bar>x\<bar>" using assms by simp
  with x q have p: "0 < p" by (simp add: zero_less_divide_iff)
  let ?d = "bitlen p - bitlen q"
  from bitlen_bounds [OF p] have pb: "2 ^ nat (bitlen p - 1) \<le> p" "p < 2 ^ nat (bitlen p)"
    by simp_all
  from bitlen_bounds [OF q] have qb: "2 ^ nat (bitlen q - 1) \<le> q" "q < 2 ^ nat (bitlen q)"
    by simp_all
  have bp: "1 \<le> bitlen p" and bq: "1 \<le> bitlen q" using p q by (simp_all add: bitlen_alt_def)
  have P1: "(2::rat) powi (bitlen p - 1) \<le> of_int p"
  proof -
    have "(of_int (2 ^ nat (bitlen p - 1)) :: rat) \<le> of_int p"
      using pb(1) by (simp only: of_int_le_iff)
    then show ?thesis using bp by (simp add: power_int_def)
  qed
  have P2: "of_int p < (2::rat) powi (bitlen p)"
  proof -
    have "(of_int p :: rat) < of_int (2 ^ nat (bitlen p))"
      using pb(2) by (simp only: of_int_less_iff)
    then show ?thesis using bp by (simp add: power_int_def)
  qed
  have Q1: "(2::rat) powi (bitlen q - 1) \<le> of_int q"
  proof -
    have "(of_int (2 ^ nat (bitlen q - 1)) :: rat) \<le> of_int q"
      using qb(1) by (simp only: of_int_le_iff)
    then show ?thesis using bq by (simp add: power_int_def)
  qed
  have Q2: "of_int q < (2::rat) powi (bitlen q)"
  proof -
    have "(of_int q :: rat) < of_int (2 ^ nat (bitlen q))"
      using qb(2) by (simp only: of_int_less_iff)
    then show ?thesis using bq by (simp add: power_int_def)
  qed
  have qpos: "(0::rat) < of_int q" using q by simp
  have lo: "(2::rat) powi (?d - 1) < \<bar>x\<bar>"
  proof -
    have "(2::rat) powi (?d - 1) * of_int q < 2 powi (?d - 1) * 2 powi (bitlen q)"
      using Q2 by (intro mult_strict_left_mono) simp_all
    also have "\<dots> = 2 powi (bitlen p - 1)"
      by (simp add: power_int_add [symmetric])
    also have "\<dots> \<le> of_int p" by (rule P1)
    finally show ?thesis using qpos by (simp add: x pos_less_divide_eq)
  qed
  have hi: "\<bar>x\<bar> < (2::rat) powi (?d + 1)"
  proof -
    have "of_int p < (2::rat) powi (bitlen p)" by (rule P2)
    also have "\<dots> = 2 powi (?d + 1) * 2 powi (bitlen q - 1)"
      by (simp add: power_int_add [symmetric])
    also have "\<dots> \<le> 2 powi (?d + 1) * of_int q"
      using Q1 by (intro mult_left_mono) simp_all
    finally show ?thesis using qpos by (simp add: x pos_divide_less_eq)
  qed
  show ?thesis
  proof (cases "2 powi ?d \<le> \<bar>x\<bar>")
    case True
    then have "binade x = ?d" by (simp add: binade_def pq Let_def)
    with True hi show ?thesis by simp
  next
    case False
    then have "binade x = ?d - 1" by (simp add: binade_def pq Let_def)
    with False lo show ?thesis by simp
  qed
qed

lemma binade_eqI:
  assumes "2 powi e \<le> \<bar>x\<bar>" and "\<bar>x\<bar> < 2 powi (e + 1)"
  shows "binade x = e"
proof -
  have "x \<noteq> 0"
  proof
    assume "x = 0"
    with assms(1) have "(2::rat) powi e \<le> 0" by simp
    moreover have "(0::rat) < 2 powi e" by simp
    ultimately show False by simp
  qed
  from binade_bounds [OF this]
  have b: "2 powi binade x \<le> \<bar>x\<bar>" "\<bar>x\<bar> < 2 powi (binade x + 1)" by simp_all
  have "\<not> e + 1 \<le> binade x"
  proof
    assume "e + 1 \<le> binade x"
    then have "(2::rat) powi (e + 1) \<le> 2 powi binade x"
      by (intro power_int_increasing) simp_all
    with b(1) assms(2) show False by simp
  qed
  moreover have "\<not> binade x + 1 \<le> e"
  proof
    assume "binade x + 1 \<le> e"
    then have "(2::rat) powi (binade x + 1) \<le> 2 powi e"
      by (intro power_int_increasing) simp_all
    with b(2) assms(1) show False by simp
  qed
  ultimately show ?thesis by simp
qed

lemma floor_rat_numeral_div:
  "\<lfloor>numeral a / numeral b :: rat\<rfloor> = numeral a div numeral b"
  by (metis floor_divide_of_int_eq of_int_numeral)

text \<open>
  The doubles of the example: \<open>4/9\<close>, \<open>3/9\<close> and \<open>2/9\<close> round to
  \<open>0.4444444444444444\<close>, \<open>0.3333333333333333\<close> and \<open>0.2222222222222222\<close>; the sum
  of the first two rounds to \<open>0.7777777777777777\<close>; \<open>1 - 2^-53\<close> is a double.
\<close>

lemma binade_examples:
  "binade (4 / 9) = - 2" "binade (1 / 3) = - 2" "binade (2 / 9) = - 3"
  "binade (14011198840708209 / 18014398509481984) = - 1"
  "binade (9007199254740991 / 9007199254740992) = - 1"
  by (rule binade_eqI; simp add: power_int_minus inverse_eq_divide)+

lemma toDouble_examples:
  "toDouble (4 / 9) = Finite (2001599834386887 / 4503599627370496)"
  "toDouble (1 / 3) = Finite (6004799503160661 / 18014398509481984)"
  "toDouble (2 / 9) = Finite (2001599834386887 / 9007199254740992)"
  "toDouble (14011198840708209 / 18014398509481984) = Finite (875699927544263 / 1125899906842624)"
  "toDouble (9007199254740991 / 9007199254740992) = Finite (9007199254740991 / 9007199254740992)"
  by (simp_all add: toDouble_def binade_examples roundHalfEven_def Let_def power_int_minus
        inverse_eq_divide floor_rat_numeral_div)

text \<open>
  Claim C8, as the code has it. For every pair of dice \<open>a\<close> and \<open>b\<close>, the two calls
  of \<^verbatim>\<open>winProb\<close> run over the same \<open>|a.faces| * |b.faces|\<close> ordered pairs, the first
  counts the pairs with \<open>x > y\<close> and the second the pairs with \<open>x < y\<close>, and with the
  number of the pairs with \<open>x = y\<close> the two win counters add up to that total.
  The fractions of the claim add up to one as exact fractions; the doubles that
  the program returns do not always (the counterexample below).
\<close>

theorem winProb_counters_partition:
  "winProb_outer (faces a) (faces b) (0, 0)
     = (count_pairs (\<lambda>x y. x > y) (faces a) (faces b), length (faces a) * length (faces b))
   \<and> winProb_outer (faces b) (faces a) (0, 0)
     = (count_pairs (\<lambda>x y. x < y) (faces a) (faces b), length (faces a) * length (faces b))
   \<and> count_pairs (\<lambda>x y. x > y) (faces a) (faces b) + count_pairs (\<lambda>x y. x < y) (faces a) (faces b)
       + count_pairs (\<lambda>x y. x = y) (faces a) (faces b)
     = length (faces a) * length (faces b)"
  using count_pairs_trichotomy [of "faces a" "faces b"]
  by (simp add: winProb_outer_count count_pairs_greater_swap mult.commute)

theorem winProb_counters_partition_witness:
  "winProb_outer (faces \<lparr>faces = [0, 2, 3]\<rparr>) (faces \<lparr>faces = [1, 0, 3]\<rparr>) (0, 0) = (4, 9)
   \<and> winProb_outer (faces \<lparr>faces = [1, 0, 3]\<rparr>) (faces \<lparr>faces = [0, 2, 3]\<rparr>) (0, 0) = (3, 9)
   \<and> count_pairs (\<lambda>x y. x = y) (faces \<lparr>faces = [0, 2, 3]\<rparr>) (faces \<lparr>faces = [1, 0, 3]\<rparr>) = 2"
proof -
  have c: "count_pairs (\<lambda>x y. x > y) [0, 2, 3] [1, 0, 3] = 4"
    "count_pairs (\<lambda>x y. x < y) [0, 2, 3] [1, 0, 3] = 3"
    by (simp_all add: count_pairs_def)
  from winProb_counters_partition [of "\<lparr>faces = [0, 2, 3]\<rparr>" "\<lparr>faces = [1, 0, 3]\<rparr>"]
  show ?thesis by (simp add: c)
qed

text \<open>
  Claim C8, the counterexample. For the dice \<open>[0,2,3]\<close> and \<open>[1,0,3]\<close>, of three
  faces each, the program returns the doubles of \<open>4/9\<close> and \<open>3/9\<close>, and the
  probability of a tie is \<open>2/9\<close>. The two returned values and \<open>2/9\<close> add up to
  \<open>1 - 7 / (9 * 2^54)\<close>, and added as doubles, in the order written, the three
  values give \<open>1 - 2^-53\<close>, printed \<open>0.9999999999999999\<close>: not one, either way.
\<close>

theorem winProb_doubles_do_not_sum_to_one:
  "winProb_double \<lparr>faces = [0, 2, 3]\<rparr> \<lparr>faces = [1, 0, 3]\<rparr>
     = Finite (2001599834386887 / 4503599627370496)
   \<and> winProb_double \<lparr>faces = [1, 0, 3]\<rparr> \<lparr>faces = [0, 2, 3]\<rparr>
     = Finite (6004799503160661 / 18014398509481984)
   \<and> tieProbability \<lparr>faces = [0, 2, 3]\<rparr> \<lparr>faces = [1, 0, 3]\<rparr> = 2 / 9
   \<and> 2001599834386887 / 4503599627370496 + 6004799503160661 / 18014398509481984 + 2 / 9
     = (162129586585337849 / 162129586585337856 :: rat)
   \<and> (162129586585337849 / 162129586585337856 :: rat) \<noteq> 1
   \<and> js_add (js_add (winProb_double \<lparr>faces = [0, 2, 3]\<rparr> \<lparr>faces = [1, 0, 3]\<rparr>)
                       (winProb_double \<lparr>faces = [1, 0, 3]\<rparr> \<lparr>faces = [0, 2, 3]\<rparr>))
               (toDouble (tieProbability \<lparr>faces = [0, 2, 3]\<rparr> \<lparr>faces = [1, 0, 3]\<rparr>))
     = Finite (9007199254740991 / 9007199254740992)
   \<and> Finite (9007199254740991 / 9007199254740992) \<noteq> Finite 1"
proof -
  have a: "winProb_double \<lparr>faces = [0, 2, 3]\<rparr> \<lparr>faces = [1, 0, 3]\<rparr>
             = Finite (2001599834386887 / 4503599627370496)"
    by (simp add: winProb_double_def js_div_counters_def toDouble_examples)
  have b: "winProb_double \<lparr>faces = [1, 0, 3]\<rparr> \<lparr>faces = [0, 2, 3]\<rparr>
             = Finite (6004799503160661 / 18014398509481984)"
    by (simp add: winProb_double_def js_div_counters_def toDouble_examples)
  have t: "tieProbability \<lparr>faces = [0, 2, 3]\<rparr> \<lparr>faces = [1, 0, 3]\<rparr> = 2 / 9"
    by (simp add: tieProbability_def count_pairs_def)
  have s: "2001599834386887 / 4503599627370496 + 6004799503160661 / 18014398509481984 + 2 / 9
             = (162129586585337849 / 162129586585337856 :: rat)"
    by simp
  have n: "(162129586585337849 / 162129586585337856 :: rat) \<noteq> 1"
    by simp
  have d: "js_add (js_add (Finite (2001599834386887 / 4503599627370496))
                          (Finite (6004799503160661 / 18014398509481984)))
             (toDouble (2 / 9)) = Finite (9007199254740991 / 9007199254740992)"
    by (simp add: toDouble_examples)
  have m: "Finite (9007199254740991 / 9007199254740992) \<noteq> Finite 1"
    by simp
  from a b t s n d m show ?thesis by (simp only: simp_thms)
qed

text \<open>A sequence returns only if its first part has returned.\<close>

lemma bind_eq_Return:
  "bind m f = Some (Return b w') \<Longrightarrow> \<exists>a w1. m = Some (Return a w1) \<and> f a w1 = Some (Return b w')"
  by (auto simp: bind_def split: option.splits outcome.splits)

section \<open>Sessions\<close>

lemma getUserNumber_Nil:
  "stdin w = [] \<Longrightarrow> getUserNumber m w = Blocked (emit (Ask_Number m) w)"
  by (subst getUserNumber.simps) simp

lemma getUserNumber_Cons:
  "stdin w = answer # rest \<Longrightarrow>
   getUserNumber m w =
     (if testDigits answer \<and> 0 \<le> numberOfDigits answer \<and> numberOfDigits answer < m
      then Return (numberOfDigits answer) ((emit (Ask_Number m) w)\<lparr>stdin := rest\<rparr>)
      else getUserNumber m (emit Log_InvalidInput ((emit (Ask_Number m) w)\<lparr>stdin := rest\<rparr>)))"
  by (subst getUserNumber.simps) (simp add: Let_def)

text \<open>The loop leaves only with a number of the range.\<close>

lemma getUserNumber_range:
  "getUserNumber m w = Return v w' \<Longrightarrow> 0 \<le> v \<and> v < m"
proof (induction m w rule: getUserNumber.induct)
  case (1 m w)
  show ?case
  proof (cases "stdin w")
    case Nil
    with "1.prems" show ?thesis by (simp add: getUserNumber_Nil)
  next
    case (Cons answer rest)
    show ?thesis
    proof (cases "testDigits answer \<and> 0 \<le> numberOfDigits answer \<and> numberOfDigits answer < m")
      case True
      with "1.prems" show ?thesis
        by (simp add: getUserNumber_Cons [OF Cons])
    next
      case False
      from "1.prems"
      have "getUserNumber m (emit Log_InvalidInput ((emit (Ask_Number m) w)\<lparr>stdin := rest\<rparr>))
              = Return v w'"
        by (simp only: getUserNumber_Cons [OF Cons] if_not_P [OF False])
      from "1.IH" [OF Cons refl False this] show ?thesis .
    qed
  qed
qed

section \<open>Running the model on the concrete data\<close>

lemma demo_entropy_ones:
  "4 \<le> a \<Longrightarrow> map (\<lambda>i. if i < 4 then 255 else (1::byte)) [a ..< a + n] = replicate n 1"
  by (induction n) (simp_all add: replicate_append_same)

lemmas demo_keys = demo_entropy_ones [of 4 32, simplified]

lemmas run_defs =
  play_cr_def play_plain_def decideFirst_cr_def decideFirst_plain_def selectPhase_cr_def
  selectPhase_plain_def rolls_cr_def rolls_plain_def bind_def FairRandom_new_def getResult_def
  showHMAC_def reveal_def emit_def randomBytes_def calcHMAC_def writeUInt32BE_def
  js_rem_def js_nth_def js_nth_rat_def dice_of_comp_def face_at_def verdict_of_def firstSum_cr_def
  printDice_def printProbabilityTable_def selectDice_def mathFloorRandomTimes_def randomInt_def
  testDigits_def isDigit_def numberOfDigits_def smod_int_alt_def Let_def
  demo_hmac_def demo_toNumber_def demo_session_def demo_world_def die_A_def die_B_def die_C_def
  getUserNumber.simps selectDice_loop.simps uniformRandom_step draw_bytes demo_keys

text \<open>
  Claim C2. In a session over a range \<open>r \<ge> 1\<close> whose secret number \<open>s\<close> lies in
  \<open>[0, r)\<close>, when the user's number read by the session is \<open>v\<close>, \<^verbatim>\<open>getResult\<close>
  returns \<open>(s + v) mod r\<close> after the reveal; \<open>v\<close> lies in \<open>[0, r)\<close> and so does the
  result.
\<close>

theorem getResult_combines:
  assumes "1 \<le> range' this" and "0 \<le> number this" and "number this < range' this"
    and "getUserNumber (range' this) (showHMAC this w) = Return v w1"
  shows "getResult this w = Return (Some ((number this + v) mod range' this)) (reveal this w1)
       \<and> 0 \<le> v \<and> v < range' this
       \<and> 0 \<le> (number this + v) mod range' this
       \<and> (number this + v) mod range' this < range' this"
proof -
  from getUserNumber_range [OF assms(4)] have v: "0 \<le> v" "v < range' this" by simp_all
  have "(v + number this) smod range' this = (number this + v) mod range' this"
    using v assms by (simp add: smod_nonneg_pos add.commute)
  then show ?thesis
    using assms v by (simp add: getResult_def js_rem_def)
qed

theorem getResult_combines_witness:
  "(1::int) \<le> range' demo_session \<and> 0 \<le> number demo_session
   \<and> number demo_session < range' demo_session
   \<and> getUserNumber (range' demo_session) (showHMAC demo_session demo_world) =
        Return 1 (demo_world\<lparr>stdin := [''2'', ''0'', ''3''],
          out := [Log_HMAC ''7778'', Ask_Number 2, Log_InvalidInput, Ask_Number 2]\<rparr>)
   \<and> getResult demo_session demo_world =
        Return (Some 0) (demo_world\<lparr>stdin := [''2'', ''0'', ''3''],
          out := [Log_HMAC ''7778'', Ask_Number 2, Log_InvalidInput, Ask_Number 2,
                  Log_Key (replicate 32 7), Log_ComputerNumber 1]\<rparr>)"
proof -
  have a: "(1::int) \<le> range' demo_session" "0 \<le> number demo_session"
    "number demo_session < range' demo_session"
    by (simp_all add: demo_session_def)
  have b: "getUserNumber (range' demo_session) (showHMAC demo_session demo_world) =
        Return 1 (demo_world\<lparr>stdin := [''2'', ''0'', ''3''],
          out := [Log_HMAC ''7778'', Ask_Number 2, Log_InvalidInput, Ask_Number 2]\<rparr>)"
    by (simp add: run_defs)
  show ?thesis
    using getResult_combines [OF a b] a b
    by (simp add: demo_session_def demo_world_def reveal_def emit_def)
qed

text \<open>
  Claim C4. For every key and every secret value that the 4-byte encoding takes
  (\<open>0 \<le> secretValue < 2^32\<close>, which holds of every number a session draws),
  \<^verbatim>\<open>commit\<close>, which is \<open>calcHMAC\<close>, yields a commitment, and \<^verbatim>\<open>verify\<close> of that
  commitment with the same secret value and key is true. The commitment is a
  function of the secret value and the key alone.
\<close>

theorem verify_commit:
  assumes "0 \<le> secretValue" and "secretValue < 2 ^ 32"
  shows "\<exists>c. calcHMAC H key' secretValue = Inr c \<and> verify H c secretValue key' = Inr True"
  using assms by (simp add: verify_def calcHMAC_def writeUInt32BE_def)

theorem verify_commit_witness:
  "(0::int) \<le> 1 \<and> (1::int) < 2 ^ 32
   \<and> calcHMAC demo_hmac (replicate 32 7) 1 = Inr ''7778''
   \<and> verify demo_hmac ''7778'' 1 (replicate 32 7) = Inr True"
  using verify_commit [of 1 demo_hmac "replicate 32 7"]
  by (simp add: verify_def calcHMAC_def writeUInt32BE_def demo_hmac_def)

lemma verify_iff:
  "verify H c secretValue key' = Inr True \<longleftrightarrow> calcHMAC H key' secretValue = Inr c"
  by (auto simp: verify_def split: sum.splits)

text \<open>
  What the constructor leaves in a session: the range it was given, a number of
  that range, and the HMAC of that number under the session's key. So a check of
  the revealed key and number against the HMAC shown before succeeds.
\<close>

lemma FairRandom_new_fields:
  assumes "FairRandom_new H r w = Some (Return this w')"
  shows "range' this = r \<and> calcHMAC H (key this) (number this) = Inr (hmac this)
       \<and> (1 \<le> r \<longrightarrow> 0 \<le> number this \<and> number this < r)"
proof -
  from bind_eq_Return [OF assms [unfolded FairRandom_new_def Let_def]]
  obtain n w2 where
    u: "uniformRandom r (snd (randomBytes 32 w)) = Some (Return n w2)" and
    c: "(case calcHMAC H (fst (randomBytes 32 w)) n of
           Inl e \<Rightarrow> Some (Throw e w2)
         | Inr h \<Rightarrow> Some (Return \<lparr>range' = r, key = fst (randomBytes 32 w), number = n, hmac = h\<rparr> w2))
        = Some (Return this w')"
    by blast
  from c obtain h where h: "calcHMAC H (fst (randomBytes 32 w)) n = Inr h"
    and this: "this = \<lparr>range' = r, key = fst (randomBytes 32 w), number = n, hmac = h\<rparr>"
    by (auto split: sum.splits)
  from uniformRandom_Return_range [OF u] h this show ?thesis by simp
qed

lemma session_commitment_verifies:
  "FairRandom_new H r w = Some (Return this w') \<Longrightarrow>
     verify H (hmac this) (number this) (key this) = Inr True"
  using FairRandom_new_fields [of H r w this w'] by (simp add: verify_def)

text \<open>
  Claim C9. In the turn-order phase of the commit-reveal variant, with \<open>frp\<close> the
  session that the constructor made over the range 2 and \<open>userNum\<close> the number read
  from the user, \<^verbatim>\<open>getResult\<close> returns \<open>(userNum + frp.number) mod 2\<close>, the deciding
  value \<open>(frp.number + that) mod 2\<close> is \<open>userNum mod 2\<close>, which is \<open>userNum\<close> itself,
  and the phase lets the user select first exactly when \<open>userNum = 0\<close>: the
  computer's secret number has no part in it.
\<close>

theorem decideFirst_cr_ignores_secret:
  assumes "FairRandom_new H 2 (emit Log_Deciding w) = Some (Return frp w1)"
    and "getUserNumber 2 (showHMAC frp w1) = Return userNum w2"
  shows "getResult frp w1 = Return (Some ((userNum + number frp) mod 2)) (reveal frp w2)
       \<and> firstSum_cr frp (Some ((userNum + number frp) mod 2)) = Some (userNum mod 2)
       \<and> userNum mod 2 = userNum
       \<and> decideFirst_cr H w =
           Some (Return (userNum = 0)
             (emit (Log_SelectsFirst (userNum = 0)) (emit (Log_Result (Some userNum)) (reveal frp w2))))"
proof -
  from FairRandom_new_fields [OF assms(1)]
  have r: "range' frp = 2" and n: "0 \<le> number frp" "number frp < 2" by simp_all
  from getUserNumber_range [OF assms(2)] have v: "0 \<le> userNum" "userNum < 2" by simp_all
  have 1: "(userNum + number frp) smod 2 = (userNum + number frp) mod 2"
    using v n by (simp add: smod_nonneg_pos)
  have 2: "(number frp + (userNum + number frp) mod 2) smod 2 = userNum mod 2"
  proof -
    have "0 \<le> number frp + (userNum + number frp) mod 2" using n by simp
    then have "(number frp + (userNum + number frp) mod 2) smod 2
                 = (number frp + (userNum + number frp) mod 2) mod 2"
      by (simp add: smod_nonneg_pos)
    also have "\<dots> = userNum mod 2" by presburger
    finally show ?thesis .
  qed
  have 3: "userNum mod 2 = userNum" using v by simp
  have g: "getResult frp w1 = Return (Some ((userNum + number frp) mod 2)) (reveal frp w2)"
    using assms(2) r 1 by (simp add: getResult_def js_rem_def)
  have f: "firstSum_cr frp (Some ((userNum + number frp) mod 2)) = Some userNum"
    using 2 3 by (simp add: firstSum_cr_def js_rem_def)
  have "decideFirst_cr H w =
           Some (Return (userNum = 0)
             (emit (Log_SelectsFirst (userNum = 0)) (emit (Log_Result (Some userNum)) (reveal frp w2))))"
    by (simp add: decideFirst_cr_def bind_def assms(1) g f Let_def)
  with g f 3 show ?thesis by simp
qed

theorem decideFirst_cr_ignores_secret_witness:
  "FairRandom_new demo_hmac 2 (emit Log_Deciding (demo_world\<lparr>epos := 4\<rparr>)) =
     Some (Return \<lparr>range' = 2, key = replicate 32 1, number = 1, hmac = ''1112''\<rparr>
        (demo_world\<lparr>epos := 40, out := [Log_Deciding]\<rparr>))
   \<and> getUserNumber 2
        (showHMAC \<lparr>range' = 2, key = replicate 32 1, number = 1, hmac = ''1112''\<rparr>
           (demo_world\<lparr>epos := 40, out := [Log_Deciding]\<rparr>)) =
       Return 1 (demo_world\<lparr>stdin := [''2'', ''0'', ''3''], epos := 40,
          out := [Log_Deciding, Log_HMAC ''1112'', Ask_Number 2, Log_InvalidInput, Ask_Number 2]\<rparr>)
   \<and> decideFirst_cr demo_hmac (demo_world\<lparr>epos := 4\<rparr>) =
       Some (Return False (demo_world\<lparr>stdin := [''2'', ''0'', ''3''], epos := 40,
          out := [Log_Deciding, Log_HMAC ''1112'', Ask_Number 2, Log_InvalidInput, Ask_Number 2,
                  Log_Key (replicate 32 1), Log_ComputerNumber 1,
                  Log_Result (Some 1), Log_SelectsFirst False]\<rparr>))"
proof -
  have a: "FairRandom_new demo_hmac 2 (emit Log_Deciding (demo_world\<lparr>epos := 4\<rparr>)) =
     Some (Return \<lparr>range' = 2, key = replicate 32 1, number = 1, hmac = ''1112''\<rparr>
        (demo_world\<lparr>epos := 40, out := [Log_Deciding]\<rparr>))"
    by (simp add: run_defs)
  have b: "getUserNumber 2
        (showHMAC \<lparr>range' = 2, key = replicate 32 1, number = 1, hmac = ''1112''\<rparr>
           (demo_world\<lparr>epos := 40, out := [Log_Deciding]\<rparr>)) =
       Return 1 (demo_world\<lparr>stdin := [''2'', ''0'', ''3''], epos := 40,
          out := [Log_Deciding, Log_HMAC ''1112'', Ask_Number 2, Log_InvalidInput, Ask_Number 2]\<rparr>)"
    by (simp add: run_defs)
  show ?thesis
    using decideFirst_cr_ignores_secret [OF a b] a b
    by (simp add: demo_world_def reveal_def emit_def)
qed

section \<open>The order of commitment, request and reveal\<close>

lemma prun_append:
  "prun s (xs @ ys) = (case prun s xs of None \<Rightarrow> None | Some s' \<Rightarrow> prun s' ys)"
  by (induction xs arbitrary: s) (simp_all split: option.splits)

lemma pafter_emit:
  "pafter (emit e w) = (case pafter w of None \<Rightarrow> None | Some s \<Rightarrow> pstep s e)"
  by (simp add: pafter_def emit_def prun_append split: option.splits)

lemma pafter_fields [simp]:
  "pafter (w\<lparr>stdin := x\<rparr>) = pafter w"
  "pafter (w\<lparr>epos := n\<rparr>) = pafter w"
  "pafter (w\<lparr>cpos := n\<rparr>) = pafter w"
  by (simp_all add: pafter_def)

lemma getUserNumber_protocol:
  "pafter w = Some s \<Longrightarrow> s = Committed \<or> s = Asked \<Longrightarrow>
     (case getUserNumber m w of
        Return v w' \<Rightarrow> pafter w' = Some Asked
      | Blocked w' \<Rightarrow> pafter w' = Some Asked
      | _ \<Rightarrow> False)"
proof (induction m w arbitrary: s rule: getUserNumber.induct)
  case (1 m w)
  have ask: "pafter (emit (Ask_Number m) w) = Some Asked"
    using "1.prems" by (auto simp: pafter_emit)
  show ?case
  proof (cases "stdin w")
    case Nil
    with ask show ?thesis by (simp add: getUserNumber_Nil)
  next
    case (Cons answer rest)
    show ?thesis
    proof (cases "testDigits answer \<and> 0 \<le> numberOfDigits answer \<and> numberOfDigits answer < m")
      case True
      with ask show ?thesis
        by (simp add: getUserNumber_Cons [OF Cons])
    next
      case False
      let ?w2 = "emit Log_InvalidInput ((emit (Ask_Number m) w)\<lparr>stdin := rest\<rparr>)"
      have "pafter ?w2 = Some Asked" using ask by (simp add: pafter_emit)
      from "1.IH" [OF Cons refl False this] show ?thesis
        by (simp only: getUserNumber_Cons [OF Cons] if_not_P [OF False]) simp
    qed
  qed
qed

lemma pafter_emit_other [simp]:
  "pafter (emit Log_InvalidInput w) = pafter w"
  "pafter (emit (Log_SelectMenu x) w) = pafter w"
  "pafter (emit Ask_Choice w) = pafter w"
  "pafter (emit Log_InvalidChoice w) = pafter w"
  "pafter (emit (Log_ProbabilityTable t) w) = pafter w"
  "pafter (emit Log_Welcome w) = pafter w"
  "pafter (emit (Log_Dice ds) w) = pafter w"
  "pafter (emit Log_Deciding w) = pafter w"
  "pafter (emit (Log_YourNumber n) w) = pafter w"
  "pafter (emit (Log_ComputersNumber n) w) = pafter w"
  "pafter (emit (Log_Result r) w) = pafter w"
  "pafter (emit (Log_SelectsFirst b) w) = pafter w"
  "pafter (emit (Log_ComputerSelects c) w) = pafter w"
  "pafter (emit (Log_YourDice u) w) = pafter w"
  "pafter (emit (Log_ComputerDice c) w) = pafter w"
  "pafter (emit Log_YourTurn w) = pafter w"
  "pafter (emit (Log_YouRolled f) w) = pafter w"
  "pafter (emit Log_ComputersTurn w) = pafter w"
  "pafter (emit (Log_ComputerRolled f) w) = pafter w"
  "pafter (emit (Log_Verdict v) w) = pafter w"
  by (simp_all add: pafter_emit split: option.splits)

lemma pafter_showHMAC:
  "pafter w = Some Idle \<Longrightarrow> pafter (showHMAC this w) = Some Committed"
  by (simp add: showHMAC_def pafter_emit)

lemma pafter_reveal:
  "pafter w = Some Asked \<Longrightarrow> pafter (reveal this w) = Some Idle"
  by (simp add: reveal_def pafter_emit)

lemma ensures_Return: "Q a w \<Longrightarrow> ensures (Some (Return a w)) Q"
  by (simp add: ensures_def)

lemma ensures_Throw: "pafter w \<noteq> None \<Longrightarrow> ensures (Some (Throw e w)) Q"
  by (simp add: ensures_def)

lemma ensures_bind:
  assumes "ensures m Q" and "\<And>a w. Q a w \<Longrightarrow> ensures (f a w) R"
  shows "ensures (bind m f) R"
proof (cases m)
  case None
  then show ?thesis by (simp add: ensures_def bind_def)
next
  case (Some oc)
  show ?thesis
  proof (cases oc)
    case (Return a w)
    with Some assms(1) have "Q a w" by (simp add: ensures_def)
    from assms(2) [OF this] Some Return show ?thesis by (simp add: bind_def)
  next
    case (Throw e w)
    with Some assms(1) show ?thesis by (simp add: ensures_def bind_def)
  next
    case (Exit c w)
    with Some assms(1) show ?thesis by (simp add: ensures_def bind_def)
  next
    case (Blocked w)
    with Some assms(1) show ?thesis by (simp add: ensures_def bind_def)
  qed
qed

lemma ensures_weaken:
  assumes "ensures m Q" and "\<And>a w. Q a w \<Longrightarrow> Q' a w"
  shows "ensures m Q'"
proof (cases m)
  case None
  then show ?thesis by (simp add: ensures_def)
next
  case (Some oc)
  show ?thesis
  proof (cases oc)
    case (Return a w)
    with Some assms(1) have "Q a w" by (simp add: ensures_def)
    from assms(2) [OF this] Some Return show ?thesis by (simp add: ensures_def)
  qed (use Some assms(1) in \<open>simp_all add: ensures_def\<close>)
qed

lemma ensures_follows:
  "ensures m (\<lambda>a w. pafter w = Some Idle) \<Longrightarrow> m = Some oc \<Longrightarrow> follows_protocol oc"
  by (auto simp: ensures_def follows_protocol_def split: outcome.splits)

lemma ensures_getUserNumber:
  assumes "pafter w = Some s" and "s = Committed \<or> s = Asked"
  shows "ensures (Some (getUserNumber m w)) (\<lambda>v w'. pafter w' = Some Asked)"
  using getUserNumber_protocol [OF assms, of m]
  by (simp add: ensures_def split: outcome.splits)

lemma ensures_uniformRandom:
  assumes "pafter w = Some s"
  shows "ensures (uniformRandom r w) (\<lambda>v w'. pafter w' = Some s)"
proof (cases "uniformRandom r w")
  case None
  then show ?thesis by (simp add: ensures_def)
next
  case (Some oc)
  from uniformRandom_sound [OF Some] obtain n where "world_of oc = w\<lparr>epos := n\<rparr>" by blast
  then have "pafter (world_of oc) = Some s" using assms by simp
  then show ?thesis using Some by (simp add: ensures_def world_of_def split: outcome.splits)
qed

lemma ensures_FairRandom_new:
  assumes "pafter w = Some s"
  shows "ensures (FairRandom_new H r w) (\<lambda>this w'. pafter w' = Some s)"
proof -
  have "pafter (snd (randomBytes 32 w)) = Some s"
    using assms by (simp add: randomBytes_def)
  from ensures_uniformRandom [OF this] show ?thesis
    unfolding FairRandom_new_def Let_def
    by (rule ensures_bind) (simp add: ensures_def split: sum.splits)
qed

lemma ensures_getResult:
  assumes "pafter w = Some Idle"
  shows "ensures (Some (getResult this w)) (\<lambda>v w'. pafter w' = Some Idle)"
  using getUserNumber_protocol [OF pafter_showHMAC [OF assms, of this], of "range' this"]
  by (auto simp: ensures_def getResult_def pafter_reveal split: outcome.splits)

lemma selectDice_loop_protocol:
  "pafter (world_of (selectDice_loop toNumber ds exclude c w)) = pafter w"
proof (induction toNumber ds exclude c w rule: selectDice_loop.induct)
  case (1 toNumber ds exclude c w)
  show ?case
    apply (subst selectDice_loop.simps)
    using 1
    apply (auto simp: Let_def world_of_def printProbabilityTable_def split: list.splits option.splits)
    done
qed

lemma ensures_selectDice:
  assumes "pafter w = Some s"
  shows "ensures (Some (selectDice toNumber ds exclude w)) (\<lambda>idx w'. pafter w' = Some s)"
  using selectDice_loop_protocol [of toNumber ds exclude False w] assms
  by (simp add: ensures_def selectDice_def world_of_def split: outcome.splits)

lemma ensures_randomInt:
  assumes "pafter w = Some s"
  shows "ensures (Some (randomInt a b w)) (\<lambda>k w'. pafter w' = Some s)"
  using assms by (simp add: ensures_def randomInt_def)

lemma pafter_mathFloorRandomTimes [simp]:
  "pafter (snd (mathFloorRandomTimes m w)) = pafter w"
  by (simp add: mathFloorRandomTimes_def Let_def)

lemma ensures_decideFirst_cr:
  assumes "pafter w = Some Idle"
  shows "ensures (decideFirst_cr H w) (\<lambda>userFirst w'. pafter w' = Some Idle)"
  unfolding decideFirst_cr_def
proof (rule ensures_bind [OF ensures_FairRandom_new [where s = Idle]])
  show "pafter (emit Log_Deciding w) = Some Idle" using assms by simp
next
  fix frp w1
  assume "pafter w1 = Some Idle"
  from ensures_getResult [OF this]
  show "ensures (bind (Some (getResult frp w1)) (\<lambda>firstUserNum w2.
          let firstSum = firstSum_cr frp firstUserNum; userFirst = (firstSum = Some 0)
          in Some (Return userFirst
                (emit (Log_SelectsFirst userFirst) (emit (Log_Result firstSum) w2)))))
        (\<lambda>userFirst w'. pafter w' = Some Idle)"
    by (rule ensures_bind) (simp add: Let_def ensures_def)
qed

lemma ensures_selectPhase_cr:
  assumes "pafter w = Some Idle"
  shows "ensures (selectPhase_cr toNumber ds userFirst w) (\<lambda>sel w'. pafter w' = Some Idle)"
proof (cases userFirst)
  case True
  show ?thesis
    unfolding selectPhase_cr_def if_P [OF True]
    by (rule ensures_bind [OF ensures_selectDice [OF assms]]) (simp add: Let_def ensures_def)
next
  case False
  have "pafter (emit (Log_ComputerSelects (Some (fst (mathFloorRandomTimes (int (length ds)) w))))
                  (snd (mathFloorRandomTimes (int (length ds)) w))) = Some Idle"
    using assms by simp
  from ensures_selectDice [OF this] show ?thesis
    unfolding selectPhase_cr_def if_not_P [OF False] Let_def
    by (rule ensures_bind) (simp add: ensures_def)
qed

lemma ensures_rolls_cr:
  assumes "pafter w = Some Idle"
  shows "ensures (rolls_cr H ds userDice compDice w) (\<lambda>v w'. pafter w' = Some Idle)"
proof (cases "js_nth_rat ds userDice")
  case None
  then show ?thesis using assms by (simp add: rolls_cr_def ensures_def)
next
  case (Some ud)
  have start: "pafter (emit Log_YourTurn w) = Some Idle" using assms by simp
  have comp: "ensures
        (case dice_of_comp ds compDice of
           None \<Rightarrow> Some (Throw TypeError w3)
         | Some cd \<Rightarrow>
             bind (FairRandom_new H (int (length (faces cd))) w3) (\<lambda>compRoll w4.
             bind (Some (getUserNumber (range' compRoll) (showHMAC compRoll w4))) (\<lambda>compUserNum w5.
               let compRollRes = js_rem (number compRoll + compUserNum) (int (length (faces cd)));
                   v = verdict_of (face_at ud userRollRes) (face_at cd compRollRes)
               in Some (Return v (emit (Log_Verdict v)
                         (emit (Log_ComputerRolled (face_at cd compRollRes)) (reveal compRoll w5)))))))
        (\<lambda>v w'. pafter w' = Some Idle)"
    if w3: "pafter w3 = Some Idle" for w3 userRollRes
  proof (cases "dice_of_comp ds compDice")
    case None
    then show ?thesis using w3 by (simp add: ensures_def)
  next
    case (Some cd)
    have "ensures
        (bind (FairRandom_new H (int (length (faces cd))) w3) (\<lambda>compRoll w4.
         bind (Some (getUserNumber (range' compRoll) (showHMAC compRoll w4))) (\<lambda>compUserNum w5.
           let compRollRes = js_rem (number compRoll + compUserNum) (int (length (faces cd)));
               v = verdict_of (face_at ud userRollRes) (face_at cd compRollRes)
           in Some (Return v (emit (Log_Verdict v)
                     (emit (Log_ComputerRolled (face_at cd compRollRes)) (reveal compRoll w5)))))))
        (\<lambda>v w'. pafter w' = Some Idle)"
    proof (rule ensures_bind [OF ensures_FairRandom_new [OF w3]])
      fix compRoll w4
      assume "pafter w4 = Some Idle"
      from ensures_getUserNumber [OF pafter_showHMAC [OF this, of compRoll] disjI1 [OF refl],
            of "range' compRoll"]
      show "ensures
          (bind (Some (getUserNumber (range' compRoll) (showHMAC compRoll w4))) (\<lambda>compUserNum w5.
             let compRollRes = js_rem (number compRoll + compUserNum) (int (length (faces cd)));
                 v = verdict_of (face_at ud userRollRes) (face_at cd compRollRes)
             in Some (Return v (emit (Log_Verdict v)
                       (emit (Log_ComputerRolled (face_at cd compRollRes)) (reveal compRoll w5))))))
          (\<lambda>v w'. pafter w' = Some Idle)"
        by (rule ensures_bind) (simp add: Let_def ensures_def pafter_reveal)
    qed
    with Some show ?thesis by simp
  qed
  show ?thesis
    unfolding rolls_cr_def Some option.case
  proof (rule ensures_bind [OF ensures_FairRandom_new [OF start]])
    fix userRoll w1
    assume "pafter w1 = Some Idle"
    from ensures_getResult [OF this]
    show "ensures
        (bind (Some (getResult userRoll w1)) (\<lambda>userRollRes w2.
           let w3 = emit Log_ComputersTurn (emit (Log_YouRolled (face_at ud userRollRes)) w2)
           in case dice_of_comp ds compDice of
                None \<Rightarrow> Some (Throw TypeError w3)
              | Some cd \<Rightarrow>
                  bind (FairRandom_new H (int (length (faces cd))) w3) (\<lambda>compRoll w4.
                  bind (Some (getUserNumber (range' compRoll) (showHMAC compRoll w4))) (\<lambda>compUserNum w5.
                    let compRollRes = js_rem (number compRoll + compUserNum) (int (length (faces cd)));
                        v = verdict_of (face_at ud userRollRes) (face_at cd compRollRes)
                    in Some (Return v (emit (Log_Verdict v)
                              (emit (Log_ComputerRolled (face_at cd compRollRes)) (reveal compRoll w5))))))))
        (\<lambda>v w'. pafter w' = Some Idle)"
    proof (rule ensures_bind)
      fix userRollRes w2
      assume "pafter w2 = Some Idle"
      then have "pafter (emit Log_ComputersTurn (emit (Log_YouRolled (face_at ud userRollRes)) w2)) = Some Idle"
        by simp
      from comp [OF this, of userRollRes]
      show "ensures
         (let w3 = emit Log_ComputersTurn (emit (Log_YouRolled (face_at ud userRollRes)) w2)
          in case dice_of_comp ds compDice of
               None \<Rightarrow> Some (Throw TypeError w3)
             | Some cd \<Rightarrow>
                 bind (FairRandom_new H (int (length (faces cd))) w3) (\<lambda>compRoll w4.
                 bind (Some (getUserNumber (range' compRoll) (showHMAC compRoll w4))) (\<lambda>compUserNum w5.
                   let compRollRes = js_rem (number compRoll + compUserNum) (int (length (faces cd)));
                       v = verdict_of (face_at ud userRollRes) (face_at cd compRollRes)
                   in Some (Return v (emit (Log_Verdict v)
                             (emit (Log_ComputerRolled (face_at cd compRollRes)) (reveal compRoll w5)))))))
         (\<lambda>v w'. pafter w' = Some Idle)"
        unfolding Let_def .
    qed
  qed
qed

lemma ensures_play_cr:
  assumes "pafter w = Some Idle"
  shows "ensures (play_cr H toNumber ds w) (\<lambda>v w'. pafter w' = Some Idle)"
proof -
  have "pafter (printDice ds (emit Log_Welcome w)) = Some Idle"
    using assms by (simp add: printDice_def)
  from ensures_decideFirst_cr [OF this] show ?thesis
    unfolding play_cr_def
  proof (rule ensures_bind)
    fix userFirst w1
    assume "pafter w1 = Some Idle"
    from ensures_selectPhase_cr [OF this]
    show "ensures
        (bind (selectPhase_cr toNumber ds userFirst w1) (\<lambda>sel w2.
           rolls_cr H ds (fst sel) (snd sel)
             (emit (Log_ComputerDice (snd sel)) (emit (Log_YourDice (fst sel)) w2))))
        (\<lambda>v w'. pafter w' = Some Idle)"
      by (rule ensures_bind) (simp add: ensures_rolls_cr)
  qed
qed

text \<open>
  Claim C3, as the code has it. In the commit-reveal variant every run of the game
  keeps the order of the protocol in each of its three draws (turn order, the
  user's roll, the computer's roll): the HMAC is shown before the user's number is
  asked for, the reveal comes after, and a game that returns has completed every
  draw it began; this holds as well of a run that throws, exits or waits for input.
  The plain variant shows no commitment at all (the counterexample below).
\<close>

theorem play_cr_follows_protocol:
  assumes "play_cr H toNumber ds w = Some oc" and "prun Idle (out w) = Some Idle"
  shows "follows_protocol oc"
  using ensures_play_cr [of w H toNumber ds] assms
  by (simp add: ensures_follows pafter_def)

theorem play_cr_follows_protocol_witness:
  "play_cr demo_hmac demo_toNumber [die_A, die_B, die_C] (demo_world\<lparr>epos := 4\<rparr>) =
     Some (Return ComputerWins
       (demo_world\<lparr>stdin := [], epos := 112, cpos := 1,
          out := [Log_Welcome, Log_Dice [die_A, die_B, die_C], Log_Deciding,
                  Log_HMAC ''1112'', Ask_Number 2, Log_InvalidInput, Ask_Number 2,
                  Log_Key (replicate 32 1), Log_ComputerNumber 1,
                  Log_Result (Some 1), Log_SelectsFirst False,
                  Log_ComputerSelects (Some 2), Log_SelectMenu (Some 2), Ask_Choice,
                  Log_YourDice 1, Log_ComputerDice (Some 2),
                  Log_YourTurn, Log_HMAC ''1112'', Ask_Number 6,
                  Log_Key (replicate 32 1), Log_ComputerNumber 1, Log_YouRolled (Some 1),
                  Log_ComputersTurn, Log_HMAC ''1112'', Ask_Number 6,
                  Log_Key (replicate 32 1), Log_ComputerNumber 1, Log_ComputerRolled (Some 7),
                  Log_Verdict ComputerWins]\<rparr>))
   \<and> prun Idle (out (demo_world\<lparr>epos := 4\<rparr>)) = Some Idle
   \<and> follows_protocol (Return ComputerWins
       (demo_world\<lparr>stdin := [], epos := 112, cpos := 1,
          out := [Log_Welcome, Log_Dice [die_A, die_B, die_C], Log_Deciding,
                  Log_HMAC ''1112'', Ask_Number 2, Log_InvalidInput, Ask_Number 2,
                  Log_Key (replicate 32 1), Log_ComputerNumber 1,
                  Log_Result (Some 1), Log_SelectsFirst False,
                  Log_ComputerSelects (Some 2), Log_SelectMenu (Some 2), Ask_Choice,
                  Log_YourDice 1, Log_ComputerDice (Some 2),
                  Log_YourTurn, Log_HMAC ''1112'', Ask_Number 6,
                  Log_Key (replicate 32 1), Log_ComputerNumber 1, Log_YouRolled (Some 1),
                  Log_ComputersTurn, Log_HMAC ''1112'', Ask_Number 6,
                  Log_Key (replicate 32 1), Log_ComputerNumber 1, Log_ComputerRolled (Some 7),
                  Log_Verdict ComputerWins]\<rparr>))"
proof -
  have a: "play_cr demo_hmac demo_toNumber [die_A, die_B, die_C] (demo_world\<lparr>epos := 4\<rparr>) =
     Some (Return ComputerWins
       (demo_world\<lparr>stdin := [], epos := 112, cpos := 1,
          out := [Log_Welcome, Log_Dice [die_A, die_B, die_C], Log_Deciding,
                  Log_HMAC ''1112'', Ask_Number 2, Log_InvalidInput, Ask_Number 2,
                  Log_Key (replicate 32 1), Log_ComputerNumber 1,
                  Log_Result (Some 1), Log_SelectsFirst False,
                  Log_ComputerSelects (Some 2), Log_SelectMenu (Some 2), Ask_Choice,
                  Log_YourDice 1, Log_ComputerDice (Some 2),
                  Log_YourTurn, Log_HMAC ''1112'', Ask_Number 6,
                  Log_Key (replicate 32 1), Log_ComputerNumber 1, Log_YouRolled (Some 1),
                  Log_ComputersTurn, Log_HMAC ''1112'', Ask_Number 6,
                  Log_Key (replicate 32 1), Log_ComputerNumber 1, Log_ComputerRolled (Some 7),
                  Log_Verdict ComputerWins]\<rparr>))"
    by (simp add: run_defs)
  have b: "prun Idle (out (demo_world\<lparr>epos := 4\<rparr>)) = Some Idle"
    by (simp add: demo_world_def)
  from play_cr_follows_protocol [OF a b] a b show ?thesis by simp
qed

text \<open>
  Claim C3, the counterexample. The plain variant run on the three dice: the
  game returns (the user wins), and its console output leaves the order of the
  protocol, because the user's number is asked for when no commitment has been
  shown.
\<close>

theorem play_plain_asks_without_commitment:
  "map_option value_of (play_plain demo_toNumber [die_A, die_B, die_C] demo_world)
     = Some (Some YouWin)
   \<and> map_option protocol_state_after
         (play_plain demo_toNumber [die_A, die_B, die_C] demo_world) = Some None"
  by (simp add: run_defs value_of_def protocol_state_after_def world_of_def pafter_def)

section \<open>The selection of the dice\<close>

text \<open>An index that \<^verbatim>\<open>selectDice\<close> returns has passed the test of the loop.\<close>

lemma selectDice_loop_result:
  "selectDice_loop toNumber ds exclude c w = Return idx w' \<Longrightarrow>
     0 \<le> idx \<and> idx < of_nat (length ds) \<and> map_option of_int exclude \<noteq> Some idx"
proof (induction toNumber ds exclude c w rule: selectDice_loop.induct)
  case (1 toNumber ds exclude c w)
  from "1.prems" show ?case
    apply (subst (asm) selectDice_loop.simps)
    using "1.IH"
    apply (auto simp: Let_def split: list.splits option.splits if_splits)
    done
qed

lemma selectDice_result:
  "selectDice toNumber ds exclude w = Return idx w' \<Longrightarrow>
     0 \<le> idx \<and> idx < of_nat (length ds) \<and> map_option of_int exclude \<noteq> Some idx"
  unfolding selectDice_def by (rule selectDice_loop_result)

lemma js_nth_Some:
  "js_nth xs i = Some x \<Longrightarrow> x \<in> set xs \<and> 0 \<le> i \<and> i < int (length xs)"
  by (auto simp: js_nth_def split: if_splits)

lemma remaining_indices:
  "c \<in> set (filter (\<lambda>i. of_int i \<noteq> (u::rat)) (map int [0 ..< n])) \<Longrightarrow>
     of_int c \<noteq> u \<and> 0 \<le> c \<and> c < int n"
  by auto

lemma length_remaining_indices:
  "n - 1 \<le> length (filter (\<lambda>i. of_int i \<noteq> (u::rat)) (map int [0 ..< n]))"
proof (cases "\<exists>j. u = of_int j")
  case True
  then obtain j where u: "u = of_int j" ..
  have "filter (\<lambda>i. (of_int i :: rat) \<noteq> of_int j) (map int [0 ..< n]) = removeAll j (map int [0 ..< n])"
    by (induction n) auto
  moreover have "distinct (map int [0 ..< n])"
    by (simp add: distinct_map)
  then have "removeAll j (map int [0 ..< n]) = remove1 j (map int [0 ..< n])"
    by (simp add: distinct_remove1_removeAll)
  ultimately show ?thesis
    unfolding u by (simp add: length_remove1)
next
  case False
  then have "\<And>i. of_int i \<noteq> u" by metis
  then have "filter (\<lambda>i. of_int i \<noteq> u) (map int [0 ..< n]) = map int [0 ..< n]"
    by simp
  then show ?thesis by simp
qed

lemma int_mod_nat_less: "0 < m \<Longrightarrow> int (c mod nat m) < m"
  using mod_less_divisor [of "nat m" c] by linarith

lemma js_nth_in_range:
  "0 \<le> i \<and> i < int (length xs) \<Longrightarrow> js_nth xs i = Some (xs ! nat i) \<and> xs ! nat i \<in> set xs"
  by (simp add: js_nth_def nat_less_iff)

lemma mathFloorRandomTimes_range:
  "0 < m \<Longrightarrow> 0 \<le> fst (mathFloorRandomTimes m w) \<and> fst (mathFloorRandomTimes m w) < m"
  by (simp add: mathFloorRandomTimes_def Let_def int_mod_nat_less)

lemma selectPhase_cr_distinct:
  assumes "selectPhase_cr toNumber ds userFirst w = Some (Return (userDice, compDice) w')"
  shows "distinct_dice userDice compDice \<and> 0 \<le> userDice \<and> userDice < of_nat (length ds)
       \<and> (2 \<le> length ds \<longrightarrow> (\<exists>c. compDice = Some c \<and> 0 \<le> c \<and> c < int (length ds)))"
proof (cases userFirst)
  case True
  let ?choices = "filter (\<lambda>i. of_int i \<noteq> userDice) (map int [0 ..< length ds])"
  from assms True
  have "bind (Some (selectDice toNumber ds None w)) (\<lambda>userDice w1.
          Some (Return (userDice,
                  js_nth (filter (\<lambda>i. of_int i \<noteq> userDice) (map int [0 ..< length ds]))
                    (fst (mathFloorRandomTimes (int (length ds) - 1) w1)))
                (emit (Log_ComputerSelects
                   (js_nth (filter (\<lambda>i. of_int i \<noteq> userDice) (map int [0 ..< length ds]))
                      (fst (mathFloorRandomTimes (int (length ds) - 1) w1))))
                   (snd (mathFloorRandomTimes (int (length ds) - 1) w1)))))
        = Some (Return (userDice, compDice) w')"
    by (simp only: selectPhase_cr_def Let_def if_True)
  from bind_eq_Return [OF this] obtain w1 where
    sel: "selectDice toNumber ds None w = Return userDice w1" and
    comp: "compDice = js_nth ?choices (fst (mathFloorRandomTimes (int (length ds) - 1) w1))"
    by auto
  have d: "distinct_dice userDice compDice"
  proof (cases compDice)
    case None
    then show ?thesis by (simp add: distinct_dice_def)
  next
    case (Some c)
    with comp js_nth_Some [of ?choices _ c] have "c \<in> set ?choices" by simp
    then have "of_int c \<noteq> userDice" by simp
    with Some show ?thesis by (auto simp: distinct_dice_def)
  qed
  have def: "\<exists>c. compDice = Some c \<and> 0 \<le> c \<and> c < int (length ds)" if "2 \<le> length ds"
  proof -
    let ?k = "fst (mathFloorRandomTimes (int (length ds) - 1) w1)"
    from that mathFloorRandomTimes_range [of "int (length ds) - 1" w1]
    have k: "0 \<le> ?k" "?k < int (length ds) - 1" by simp_all
    with length_remaining_indices [of "length ds" userDice]
    have "0 \<le> ?k \<and> ?k < int (length ?choices)" by linarith
    from js_nth_in_range [OF this] comp
    have "compDice = Some (?choices ! nat ?k)" "?choices ! nat ?k \<in> set ?choices"
      by (simp_all only:)
    with remaining_indices [of "?choices ! nat ?k" userDice "length ds"] show ?thesis by blast
  qed
  from d def selectDice_result [OF sel] show ?thesis by simp
next
  case False
  let ?c = "fst (mathFloorRandomTimes (int (length ds)) w)"
  from assms False
  have "bind (Some (selectDice toNumber ds (Some ?c)
                (emit (Log_ComputerSelects (Some ?c)) (snd (mathFloorRandomTimes (int (length ds)) w)))))
          (\<lambda>userDice w1. Some (Return (userDice, Some ?c) w1))
        = Some (Return (userDice, compDice) w')"
    by (simp only: selectPhase_cr_def Let_def if_False)
  from bind_eq_Return [OF this] obtain a w1 where
    m: "Some (selectDice toNumber ds (Some ?c)
                (emit (Log_ComputerSelects (Some ?c)) (snd (mathFloorRandomTimes (int (length ds)) w))))
          = Some (Return a w1)" and
    r: "Some (Return (a, Some ?c) w1) = Some (Return (userDice, compDice) w')"
    by blast
  from r have "a = userDice" and comp: "compDice = Some ?c" and "w1 = w'"
    by simp_all
  with m obtain w0 where
    sel: "selectDice toNumber ds (Some ?c) w0 = Return userDice w'"
    by simp
  from selectDice_result [OF sel] comp have d: "distinct_dice userDice compDice"
    and u: "0 \<le> userDice" "userDice < of_nat (length ds)"
    by (auto simp: distinct_dice_def)
  have "0 \<le> ?c \<and> ?c < int (length ds)" if "2 \<le> length ds"
  proof -
    from that have "0 < int (length ds)" by linarith
    then show ?thesis by (rule mathFloorRandomTimes_range)
  qed
  with d u comp show ?thesis by simp
qed

lemma randomInt_Return:
  "randomInt a b w = Return k w' \<Longrightarrow> a \<le> k \<and> k < b"
  using int_mod_nat_less [of "b - a" "chance w (cpos w)"]
  by (auto simp: randomInt_def split: if_splits)

lemma selectPhase_plain_distinct:
  assumes "selectPhase_plain toNumber ds userFirst w = Some (Return (userDice, compDice) w')"
  shows "distinct_dice userDice compDice \<and> 0 \<le> userDice \<and> userDice < of_nat (length ds)
       \<and> (2 \<le> length ds \<longrightarrow> (\<exists>c. compDice = Some c \<and> 0 \<le> c \<and> c < int (length ds)))"
proof (cases userFirst)
  case True
  let ?choices = "filter (\<lambda>i. of_int i \<noteq> userDice) (map int [0 ..< length ds])"
  from assms True
  have "bind (Some (selectDice toNumber ds None w)) (\<lambda>userDice w1.
          bind (Some (randomInt 0
                  (int (length (filter (\<lambda>i. of_int i \<noteq> userDice) (map int [0 ..< length ds])))) w1))
            (\<lambda>k w2. Some (Return (userDice,
                  js_nth (filter (\<lambda>i. of_int i \<noteq> userDice) (map int [0 ..< length ds])) k)
                (emit (Log_ComputerSelects
                   (js_nth (filter (\<lambda>i. of_int i \<noteq> userDice) (map int [0 ..< length ds])) k)) w2))))
        = Some (Return (userDice, compDice) w')"
    by (simp only: selectPhase_plain_def Let_def if_True)
  from bind_eq_Return [OF this] obtain u1 w1 where
    sel1: "selectDice toNumber ds None w = Return u1 w1" and
    rest: "bind (Some (randomInt 0
                  (int (length (filter (\<lambda>i. of_int i \<noteq> u1) (map int [0 ..< length ds])))) w1))
            (\<lambda>k w2. Some (Return (u1,
                  js_nth (filter (\<lambda>i. of_int i \<noteq> u1) (map int [0 ..< length ds])) k)
                (emit (Log_ComputerSelects
                   (js_nth (filter (\<lambda>i. of_int i \<noteq> u1) (map int [0 ..< length ds])) k)) w2)))
        = Some (Return (userDice, compDice) w')"
    by auto
  from bind_eq_Return [OF rest] obtain k w2 where
    k1: "randomInt 0 (int (length (filter (\<lambda>i. of_int i \<noteq> u1) (map int [0 ..< length ds])))) w1
          = Return k w2" and
    eq: "u1 = userDice" "compDice = js_nth (filter (\<lambda>i. of_int i \<noteq> u1) (map int [0 ..< length ds])) k"
    by auto
  from sel1 k1 eq have
    sel: "selectDice toNumber ds None w = Return userDice w1" and
    k: "randomInt 0 (int (length ?choices)) w1 = Return k w2" and
    comp: "compDice = js_nth ?choices k"
    by simp_all
  from js_nth_in_range [OF randomInt_Return [OF k]] comp
  have c: "compDice = Some (?choices ! nat k)" "?choices ! nat k \<in> set ?choices"
    by (simp_all only:)
  with remaining_indices [of "?choices ! nat k" userDice "length ds"] selectDice_result [OF sel]
  show ?thesis by (auto simp: distinct_dice_def)
next
  case False
  from assms False
  have "bind (Some (randomInt 0 (int (length ds)) w)) (\<lambda>compDice w1.
          bind (Some (selectDice toNumber ds (Some compDice)
                        (emit (Log_ComputerSelects (Some compDice)) w1)))
            (\<lambda>userDice w2. Some (Return (userDice, Some compDice) w2)))
        = Some (Return (userDice, compDice) w')"
    by (simp only: selectPhase_plain_def if_False)
  from bind_eq_Return [OF this] obtain c w1 where
    c: "randomInt 0 (int (length ds)) w = Return c w1" and
    rest: "bind (Some (selectDice toNumber ds (Some c) (emit (Log_ComputerSelects (Some c)) w1)))
            (\<lambda>userDice w2. Some (Return (userDice, Some c) w2))
          = Some (Return (userDice, compDice) w')"
    by auto
  from bind_eq_Return [OF rest] have
    sel: "selectDice toNumber ds (Some c) (emit (Log_ComputerSelects (Some c)) w1) = Return userDice w'"
    and comp: "compDice = Some c"
    by auto
  from selectDice_result [OF sel] randomInt_Return [OF c] comp show ?thesis
    by (auto simp: distinct_dice_def)
qed

text \<open>
  A game that returns has been through the selection phase, and the two indices
  that the phase returned are the ones logged and rolled with.
\<close>

lemma play_cr_passes_selection:
  assumes "play_cr H toNumber ds w = Some (Return v w')"
  shows "\<exists>userFirst w1 sel w2.
           selectPhase_cr toNumber ds userFirst w1 = Some (Return sel w2)
         \<and> rolls_cr H ds (fst sel) (snd sel)
               (emit (Log_ComputerDice (snd sel)) (emit (Log_YourDice (fst sel)) w2))
             = Some (Return v w')"
proof -
  from bind_eq_Return [OF assms [unfolded play_cr_def]] obtain userFirst w1 where
    "bind (selectPhase_cr toNumber ds userFirst w1) (\<lambda>sel w2.
       rolls_cr H ds (fst sel) (snd sel)
         (emit (Log_ComputerDice (snd sel)) (emit (Log_YourDice (fst sel)) w2)))
     = Some (Return v w')"
    by blast
  from bind_eq_Return [OF this] show ?thesis by blast
qed

lemma play_plain_passes_selection:
  assumes "play_plain toNumber ds w = Some (Return v w')"
  shows "\<exists>userFirst w1 sel w2.
           selectPhase_plain toNumber ds userFirst w1 = Some (Return sel w2)
         \<and> rolls_plain ds (fst sel) (snd sel)
               (emit (Log_ComputerDice (snd sel)) (emit (Log_YourDice (fst sel)) w2))
             = Some (Return v w')"
proof -
  from bind_eq_Return [OF assms [unfolded play_plain_def]] obtain userFirst w1 where
    "bind (selectPhase_plain toNumber ds userFirst w1) (\<lambda>sel w2.
       rolls_plain ds (fst sel) (snd sel)
         (emit (Log_ComputerDice (snd sel)) (emit (Log_YourDice (fst sel)) w2)))
     = Some (Return v w')"
    by blast
  from bind_eq_Return [OF this] show ?thesis by blast
qed

text \<open>
  Claim C10. Whenever the selection phase of either variant returns, the index the
  computer selected differs from the index the user selected; the user's index
  lies in \<open>[0, n)\<close> for \<open>n\<close> dice, and with two dice or more the computer's index is
  an index of a die. A game that returns has been through the phase
  (\<open>play_cr_passes_selection\<close>, \<open>play_plain_passes_selection\<close>).
\<close>

theorem selected_dice_distinct:
  assumes "selectPhase_cr toNumber ds userFirst w = Some (Return (userDice, compDice) w')
         \<or> selectPhase_plain toNumber ds userFirst w = Some (Return (userDice, compDice) w')"
  shows "distinct_dice userDice compDice \<and> 0 \<le> userDice \<and> userDice < of_nat (length ds)
       \<and> (2 \<le> length ds \<longrightarrow> (\<exists>c. compDice = Some c \<and> 0 \<le> c \<and> c < int (length ds)))"
  using assms selectPhase_cr_distinct selectPhase_plain_distinct by blast

theorem selected_dice_distinct_witness:
  "selectPhase_cr demo_toNumber [die_A, die_B, die_C] False (demo_world\<lparr>stdin := [''3'', ''2'']\<rparr>) =
     Some (Return (1, Some 2)
       (demo_world\<lparr>stdin := [], cpos := 1,
          out := [Log_ComputerSelects (Some 2), Log_SelectMenu (Some 2), Ask_Choice,
                  Log_InvalidChoice, Log_SelectMenu (Some 2), Ask_Choice]\<rparr>))
   \<and> distinct_dice 1 (Some 2)
   \<and> selectPhase_plain demo_toNumber [die_A, die_B, die_C] True (demo_world\<lparr>stdin := [''3'', ''2'']\<rparr>) =
     Some (Return (2, Some 1)
       (demo_world\<lparr>stdin := [''2''], cpos := 1,
          out := [Log_SelectMenu None, Ask_Choice, Log_ComputerSelects (Some 1)]\<rparr>))
   \<and> distinct_dice 2 (Some 1)"
proof -
  have a: "selectPhase_cr demo_toNumber [die_A, die_B, die_C] False (demo_world\<lparr>stdin := [''3'', ''2'']\<rparr>) =
     Some (Return (1, Some 2)
       (demo_world\<lparr>stdin := [], cpos := 1,
          out := [Log_ComputerSelects (Some 2), Log_SelectMenu (Some 2), Ask_Choice,
                  Log_InvalidChoice, Log_SelectMenu (Some 2), Ask_Choice]\<rparr>))"
    by (simp add: run_defs)
  have b: "selectPhase_plain demo_toNumber [die_A, die_B, die_C] True (demo_world\<lparr>stdin := [''3'', ''2'']\<rparr>) =
     Some (Return (2, Some 1)
       (demo_world\<lparr>stdin := [''2''], cpos := 1,
          out := [Log_SelectMenu None, Ask_Choice, Log_ComputerSelects (Some 1)]\<rparr>))"
    by (simp add: run_defs)
  from selected_dice_distinct [OF disjI1 [OF a]] selected_dice_distinct [OF disjI2 [OF b]] a b
  show ?thesis by simp
qed

end
